theory Spec2Isabelle
  imports Main "HOL-Library.Word" "HOL-Library.Char_ord" "HOL-Library.List_Lexorder"
    "HOL-Library.Multiset"
begin

section \<open>go-searchbot: file search by name and tabular display\<close>

text \<open>
  The program has two packages. Package \<open>search\<close> walks a directory tree with
  \<open>filepath.Walk\<close> and collects the files whose names match a pattern; package
  \<open>display\<close> sorts the collected records and prints them as a table.

  Go strings are byte sequences, so a Go \<open>string\<close> is a \<^typ>\<open>string\<close> (a list of
  8-bit \<^typ>\<open>char\<close>) here; a \<open>rune\<close> is a code point, a \<^typ>\<open>nat\<close>. An \<open>int64\<close> is
  a \<^typ>\<open>64 word\<close> read through \<^const>\<open>sint\<close>; Go's \<open>int\<close> (lengths, widths) is an
  \<^typ>\<open>int\<close>.

  The sources hold two revisions of each package. The later ones, which the tests
  exercise, are modelled under the names of the code: \<open>FormatSize\<close> with sign handling,
  \<open>truncateString\<close> on runes, \<open>SearchFiles\<close> with the validation of its arguments. What
  differs in the earlier ones is modelled beside them (\<open>FormatSize_unsigned\<close>,
  \<open>truncateString_bytes\<close>, \<open>SearchFiles_unvalidated\<close>).
\<close>

subsection \<open>Integers\<close>

type_synonym int64 = "64 word"

text \<open>The value an \<open>int64\<close> variable holds after an arithmetic result \<open>x\<close> is stored in it.\<close>

definition wrap64 :: "int \<Rightarrow> int" where
  "wrap64 x = sint (word_of_int x :: int64)"

text \<open>Go's integer division truncates towards zero.\<close>

definition quo :: "int \<Rightarrow> int \<Rightarrow> int" where
  "quo a b = sgn a * sgn b * (\<bar>a\<bar> div \<bar>b\<bar>)"

subsection \<open>Formatting verbs of package fmt\<close>

definition digit :: "nat \<Rightarrow> char" where
  "digit d = ''0123456789'' ! d"

text \<open>The decimal digits of a natural number, most significant first.\<close>

function fmt_nat :: "nat \<Rightarrow> string" where
  "fmt_nat n = (if n < 10 then [digit n] else fmt_nat (n div 10) @ [digit (n mod 10)])"
  by pat_completeness auto
termination
  by (relation "measure id") auto

declare fmt_nat.simps [simp del]

text \<open>The verb \<open>%d\<close>.\<close>

definition fmt_d :: "int \<Rightarrow> string" where
  "fmt_d i = (if i < 0 then CHR ''-'' # fmt_nat (nat (- i)) else fmt_nat (nat i))"

subsection \<open>float64 arithmetic on positive values\<close>

text \<open>
  A positive finite \<open>float64\<close> is kept as an exact fraction \<open>(p, q)\<close> of positive
  integers. \<open>FormatSize\<close> converts two positive integers below \<open>2^64\<close> and divides them,
  so neither overflow nor subnormal numbers arise; what remains of IEEE 754 is the
  rounding of an exact result to a 53-bit significand, ties to even.
\<close>

type_synonym float64 = "int \<times> int"

function bit_len :: "int \<Rightarrow> nat" where
  "bit_len n = (if n \<le> 0 then 0 else Suc (bit_len (n div 2)))"
  by pat_completeness auto
termination
  by (relation "measure nat") auto

declare bit_len.simps [simp del]

text \<open>Rounding \<open>num / den\<close> to the nearest integer, ties to the even one.\<close>

definition round_half_even :: "int \<Rightarrow> int \<Rightarrow> int" where
  "round_half_even num den =
     (let t = num div den; r = num mod den
      in if den < 2 * r \<or> (2 * r = den \<and> odd t) then t + 1 else t)"

text \<open>
  The exponent \<open>e\<close> with \<open>2^e \<le> p / q < 2^(e+1)\<close>, then the significand
  \<open>p / q * 2^(52 - e)\<close> rounded to an integer, then the value again as a fraction.
\<close>

definition binade :: "int \<Rightarrow> int \<Rightarrow> int" where
  "binade p q =
     (let d = int (bit_len p) - int (bit_len q)
      in if (if 0 \<le> d then q * 2 ^ nat d \<le> p else q \<le> p * 2 ^ nat (- d)) then d else d - 1)"

definition round53 :: "int \<Rightarrow> int \<Rightarrow> float64" where
  "round53 p q =
     (let e = binade p q;
          m = (if e \<le> 52 then round_half_even (p * 2 ^ nat (52 - e)) q
               else round_half_even p (q * 2 ^ nat (e - 52)))
      in if e \<le> 52 then (m, 2 ^ nat (52 - e)) else (m * 2 ^ nat (e - 52), 1))"

text \<open>The conversion \<open>float64(n)\<close> of a positive integer.\<close>

definition float64_of_int :: "int \<Rightarrow> float64" where
  "float64_of_int n = round53 n 1"

text \<open>The quotient \<open>a / b\<close> of two positive \<open>float64\<close> values.\<close>

definition float64_div :: "float64 \<Rightarrow> float64 \<Rightarrow> float64" where
  "float64_div a b = round53 (fst a * snd b) (snd a * fst b)"

text \<open>
  The verb \<open>%.1f\<close> on a positive value: \<open>strconv\<close> rounds the exact decimal expansion to
  one digit after the point, ties to even.
\<close>

definition fmt_f1 :: "float64 \<Rightarrow> string" where
  "fmt_f1 x =
     (let tenths = nat (round_half_even (10 * fst x) (snd x))
      in fmt_nat (tenths div 10) @ ''.'' @ [digit (tenths mod 10)])"

subsection \<open>display.FormatSize\<close>

text \<open>
  The loop \<open>for n := size / unit; n >= unit; n /= unit { div *= unit; exp++ }\<close>,
  returning \<open>div\<close> and \<open>exp\<close>.
\<close>

function FormatSize_loop :: "int \<Rightarrow> int \<Rightarrow> nat \<Rightarrow> int \<times> nat" where
  "FormatSize_loop n dv exp =
     (if 1024 \<le> n then FormatSize_loop (quo n 1024) (wrap64 (dv * 1024)) (exp + 1)
      else (dv, exp))"
  by pat_completeness auto
termination
proof (relation "measure (\<lambda>(n, dv, exp). nat n)")
  show "wf (measure (\<lambda>(n, dv, exp). nat n))"
    by simp
next
  fix n dv :: int and exp :: nat
  assume "1024 \<le> n"
  then have "quo n 1024 = n div 1024" "n div 1024 < n"
    by (simp_all add: quo_def)
  with \<open>1024 \<le> n\<close>
  show "((quo n 1024, wrap64 (dv * 1024), exp + 1), (n, dv, exp)) \<in> measure (\<lambda>(n, dv, exp). nat n)"
    by simp
qed

declare FormatSize_loop.simps [simp del]

text \<open>
  \<open>FormatSize\<close> as in the revision with sign handling. \<open>-size\<close> wraps for the least
  \<open>int64\<close>, which then stays negative and takes the byte branch.
\<close>

definition FormatSize :: "int64 \<Rightarrow> string" where
  "FormatSize sz =
     (if sz = 0 then ''0 B''
      else
        let sign = (if sint sz < 0 then ''-'' else '''');
            size = (if sint sz < 0 then wrap64 (- sint sz) else sint sz)
        in if size < 1024 then sign @ fmt_d size @ '' B''
           else
             let (dv, exp) = FormatSize_loop (quo size 1024) 1024 0
             in sign @ fmt_f1 (float64_div (float64_of_int size) (float64_of_int dv))
                @ '' '' @ [''KMGTPE'' ! exp] @ ''B'')"

text \<open>
  \<open>FormatSize\<close> as in the revision without sign handling: a negative size is below
  \<open>unit\<close> and is printed in bytes.
\<close>

definition FormatSize_unsigned :: "int64 \<Rightarrow> string" where
  "FormatSize_unsigned sz =
     (let size = sint sz
      in if size < 1024 then fmt_d size @ '' B''
         else
           let (dv, exp) = FormatSize_loop (quo size 1024) 1024 0
           in fmt_f1 (float64_div (float64_of_int size) (float64_of_int dv))
              @ '' '' @ [''KMGTPE'' ! exp] @ ''B'')"

subsection \<open>Packages strings and unicode/utf8\<close>

text \<open>\<open>strings.HasPrefix\<close>: \<open>len(s) >= len(prefix) && s[:len(prefix)] == prefix\<close>.\<close>

definition HasPrefix :: "string \<Rightarrow> string \<Rightarrow> bool" where
  "HasPrefix s pre = (length pre \<le> length s \<and> take (length pre) s = pre)"

text \<open>\<open>strings.Contains\<close>: some position of \<open>s\<close> starts with \<open>substr\<close>.\<close>

fun Contains :: "string \<Rightarrow> string \<Rightarrow> bool" where
  "Contains [] substr = (substr = [])"
| "Contains (c # cs) substr = (HasPrefix (c # cs) substr \<or> Contains cs substr)"

text \<open>\<open>strings.Repeat\<close> with a count that is not negative.\<close>

definition Repeat :: "string \<Rightarrow> nat \<Rightarrow> string" where
  "Repeat s n = concat (replicate n s)"

text \<open>A byte as a number, and back.\<close>

definition byte :: "char \<Rightarrow> nat" where
  "byte c = of_char c"

definition chr :: "nat \<Rightarrow> char" where
  "chr n = char_of n"

definition RuneError :: nat where
  "RuneError = 0xFFFD"

text \<open>
  \<open>utf8.DecodeRuneInString\<close>: the first rune of a string and its width in bytes. The
  table \<open>first\<close> and the \<open>acceptRanges\<close> of the library are written out as comparisons
  on the lead byte; masking and shifting are written as \<open>mod\<close> and multiplication. A byte
  that starts no well-formed sequence is decoded as \<open>RuneError\<close> of width 1.
\<close>

definition DecodeRune :: "string \<Rightarrow> nat \<times> nat" where
  "DecodeRune s =
     (if length s < 1 then (RuneError, 0)
      else
        let s0 = byte (s ! 0)
        in if s0 < 0x80 then (s0, 1)
           else if s0 < 0xC2 \<or> 0xF5 \<le> s0 then (RuneError, 1)
           else
             let sz = (if s0 < 0xE0 then 2 else if s0 < 0xF0 then 3 else 4 :: nat);
                 lo = (if s0 = 0xE0 then 0xA0 else if s0 = 0xF0 then 0x90 else 0x80 :: nat);
                 hi = (if s0 = 0xED then 0x9F else if s0 = 0xF4 then 0x8F else 0xBF :: nat)
             in if length s < sz then (RuneError, 1)
                else
                  let s1 = byte (s ! 1)
                  in if s1 < lo \<or> hi < s1 then (RuneError, 1)
                     else if sz \<le> 2 then ((s0 mod 32) * 64 + s1 mod 64, 2)
                     else
                       let s2 = byte (s ! 2)
                       in if s2 < 0x80 \<or> 0xBF < s2 then (RuneError, 1)
                          else if sz \<le> 3
                          then ((s0 mod 16) * 4096 + (s1 mod 64) * 64 + s2 mod 64, 3)
                          else
                            let s3 = byte (s ! 3)
                            in if s3 < 0x80 \<or> 0xBF < s3 then (RuneError, 1)
                               else ((s0 mod 8) * 262144 + (s1 mod 64) * 4096
                                     + (s2 mod 64) * 64 + s3 mod 64, 4))"

text \<open>
  The conversion \<open>[]rune(s)\<close>: decode a rune, drop its bytes, repeat. The width of a rune
  decoded from a non-empty string is at least 1, so the first byte is always dropped.
\<close>

fun runes :: "string \<Rightarrow> nat list" where
  "runes [] = []"
| "runes (c # cs) = (let (r, w) = DecodeRune (c # cs) in r # runes (drop (w - 1) cs))"

text \<open>\<open>utf8.RuneCountInString\<close> counts the runes that decoding yields.\<close>

definition RuneCountInString :: "string \<Rightarrow> int" where
  "RuneCountInString s = int (length (runes s))"

text \<open>
  \<open>utf8.AppendRune\<close>: the UTF-8 encoding of a rune; a surrogate or a value beyond
  \<open>MaxRune\<close> is encoded as \<open>RuneError\<close>.
\<close>

definition EncodeRune :: "nat \<Rightarrow> string" where
  "EncodeRune r =
     (if r \<le> 0x7F then [chr r]
      else if r \<le> 0x7FF then [chr (0xC0 + r div 64), chr (0x80 + r mod 64)]
      else if 0x10FFFF < r \<or> (0xD800 \<le> r \<and> r \<le> 0xDFFF)
      then [chr 0xEF, chr 0xBF, chr 0xBD]
      else if r \<le> 0xFFFF
      then [chr (0xE0 + r div 4096), chr (0x80 + r div 64 mod 64), chr (0x80 + r mod 64)]
      else [chr (0xF0 + r div 262144), chr (0x80 + r div 4096 mod 64),
            chr (0x80 + r div 64 mod 64), chr (0x80 + r mod 64)])"

text \<open>The conversion \<open>string(rs)\<close> of a rune slice.\<close>

definition string_of_runes :: "nat list \<Rightarrow> string" where
  "string_of_runes rs = concat (map EncodeRune rs)"

text \<open>
  \<open>unicode.ToLower\<close>: ASCII letters are handled in the code, every other rune goes
  through the case tables of package \<open>unicode\<close>, which are the parameter \<open>tbl\<close>.
\<close>

definition unicode_ToLower :: "(nat \<Rightarrow> nat) \<Rightarrow> nat \<Rightarrow> nat" where
  "unicode_ToLower tbl r =
     (if r \<le> 0x7F then (if 0x41 \<le> r \<and> r \<le> 0x5A then r + 0x20 else r) else tbl r)"

text \<open>
  \<open>strings.ToLower\<close>: a string of ASCII bytes is lowered byte by byte; any other string
  is decoded, mapped rune by rune with \<open>unicode.ToLower\<close> and encoded again
  (\<open>strings.Map\<close>).
\<close>

definition ToLower :: "(nat \<Rightarrow> nat) \<Rightarrow> string \<Rightarrow> string" where
  "ToLower tbl s =
     (if list_all (\<lambda>c. byte c < 0x80) s
      then map (\<lambda>c. if 0x41 \<le> byte c \<and> byte c \<le> 0x5A then chr (byte c + 0x20) else c) s
      else string_of_runes (map (unicode_ToLower tbl) (runes s)))"

text \<open>The runes that have an encoding of their own: Unicode scalar values.\<close>

definition valid_rune :: "nat \<Rightarrow> bool" where
  "valid_rune r = (r \<le> 0x10FFFF \<and> \<not> (0xD800 \<le> r \<and> r \<le> 0xDFFF))"

subsection \<open>display.truncateString\<close>

text \<open>The revision that counts runes.\<close>

definition truncateString :: "string \<Rightarrow> int \<Rightarrow> string" where
  "truncateString str maxLen =
     (if maxLen \<le> 0 then []
      else if RuneCountInString str \<le> maxLen then str
      else if maxLen \<le> 3 then Repeat ''.'' (nat maxLen)
      else string_of_runes (take (nat (maxLen - 3)) (runes str)) @ ''...'')"

text \<open>
  The revision that counts bytes: \<open>str[:maxLen-3]\<close> panics when \<open>maxLen - 3\<close> is
  negative.
\<close>

datatype panic = SliceBoundsOutOfRange

definition truncateString_bytes :: "string \<Rightarrow> int \<Rightarrow> panic + string" where
  "truncateString_bytes str maxLen =
     (if int (length str) \<le> maxLen then Inr str
      else if maxLen - 3 < 0 then Inl SliceBoundsOutOfRange
      else Inr (take (nat (maxLen - 3)) str @ ''...''))"

subsection \<open>Package search: data\<close>

record SearchOptions =
  Recursive :: bool
  ExactMatch :: bool
  CaseSensitive :: bool

record SearchResult =
  Path :: string
  Name :: string
  Size :: int64
  ModTime :: string

text \<open>
  The errors \<open>SearchFiles\<close> can return: its own two, or whatever \<open>filepath.Walk\<close>
  returns. The errors inside \<open>filepath.Walk\<close> are \<open>SkipDir\<close>, \<open>SkipAll\<close> and any
  other error a callback may return; \<open>nil\<close> is \<open>None\<close>.
\<close>

datatype walk_error = SkipDir | SkipAll | OtherError

datatype error = ErrEmptyPattern | ErrInvalidPath | WalkError walk_error

subsection \<open>display.PrintResults\<close>

text \<open>
  What is written to standard output, write by write: package \<open>color\<close> prints in a
  colour (and appends a newline to a format that does not end in one), package \<open>fmt\<close>
  prints plainly.
\<close>

datatype colour = Yellow | Green | Blue

datatype written = Coloured colour string | Plain string

definition newline :: string where
  "newline = [CHR 0x0A]"

text \<open>The verb \<open>%-Ns\<close>: the string, then blanks up to a width of \<open>N\<close> runes.\<close>

definition pad_right :: "nat \<Rightarrow> string \<Rightarrow> string" where
  "pad_right w s = s @ replicate (w - nat (RuneCountInString s)) CHR '' ''"

text \<open>The format \<open>"%-50s %-20s %-15s %s\n"\<close>.\<close>

definition table_row :: "string \<Rightarrow> string \<Rightarrow> string \<Rightarrow> string \<Rightarrow> string" where
  "table_row a b c d =
     pad_right 50 a @ '' '' @ pad_right 20 b @ '' '' @ pad_right 15 c @ '' '' @ d @ newline"

definition rule_line :: string where
  "rule_line = Repeat ''-'' 100 @ newline"

text \<open>
  \<open>sort.Slice\<close>. On a slice of at most 12 elements the library runs an insertion sort:
  for each position \<open>i\<close>, the element moves left past every element that \<open>less\<close> puts
  after it. \<open>sink\<close> is the inner loop, on the sorted part before \<open>i\<close> held in reverse.
  On longer slices the library switches to pattern-defeating quicksort, which also leaves
  a permutation ordered by \<open>less\<close>, but may order elements that \<open>less\<close> does not
  distinguish differently.
\<close>

fun sink :: "('a \<Rightarrow> 'a \<Rightarrow> bool) \<Rightarrow> 'a \<Rightarrow> 'a list \<Rightarrow> 'a list" where
  "sink lt x [] = [x]"
| "sink lt x (y # ys) = (if lt x y then y # sink lt x ys else x # y # ys)"

definition sort_Slice :: "('a \<Rightarrow> 'a \<Rightarrow> bool) \<Rightarrow> 'a list \<Rightarrow> 'a list" where
  "sort_Slice lt xs = rev (foldl (\<lambda>acc x. sink lt x acc) [] xs)"

text \<open>
  \<open>PrintResults\<close> (the revision whose \<open>FormatSize\<close> and \<open>truncateString\<close> are
  the ones above) returns what it writes and the contents of the argument slice after
  the call, which \<open>sort.Slice\<close> has reordered in place.
\<close>

definition PrintResults :: "SearchResult list \<Rightarrow> written list \<times> SearchResult list" where
  "PrintResults results =
     (if length results = 0 then ([Coloured Yellow (newline @ ''No files found'' @ newline)], results)
      else
        let results = sort_Slice (\<lambda>a b. Name a < Name b) results;
            totalSize = foldl (\<lambda>total result. total + Size result) 0 results
        in ([Coloured Green
               (newline @ ''Found '' @ fmt_d (int (length results)) @ '' files (Total size: ''
                @ FormatSize totalSize @ '')'' @ newline),
             Plain rule_line,
             Coloured Blue (table_row ''NAME'' ''SIZE'' ''MODIFIED'' ''PATH''),
             Plain rule_line]
            @ map (\<lambda>result. Plain (table_row (truncateString (Name result) 47)
                     (FormatSize (Size result)) (ModTime result) (Path result))) results
            @ [Plain rule_line],
            results))"

subsection \<open>Package path/filepath and the file system\<close>

text \<open>
  What \<open>os.Lstat\<close> and the directory listing find below the root. An entry of a
  directory is a name together with what \<open>os.Lstat\<close> finds under it: \<open>None\<close> when
  \<open>os.Lstat\<close> fails (no permission, or the entry vanished after the listing), otherwise
  a node. A node is a file (anything that is not a directory, a symbolic link included,
  since \<open>os.Lstat\<close> does not follow links), a directory with its listing in the order
  the library returns it, or a directory whose listing fails. Each carries its size and
  its modification time, the latter already in the layout \<open>2006-01-02 15:04:05\<close>.
\<close>

datatype node =
  File int64 string
| Dir int64 string "(string \<times> node option) list"
| Unreadable int64 string

record FileInfo =
  info_Name :: string
  info_IsDir :: bool
  info_Size :: int64
  info_ModTime :: string

fun lstat_info :: "string \<Rightarrow> node \<Rightarrow> FileInfo" where
  "lstat_info name (File sz mt) =
     \<lparr>info_Name = name, info_IsDir = False, info_Size = sz, info_ModTime = mt\<rparr>"
| "lstat_info name (Dir sz mt entries) =
     \<lparr>info_Name = name, info_IsDir = True, info_Size = sz, info_ModTime = mt\<rparr>"
| "lstat_info name (Unreadable sz mt) =
     \<lparr>info_Name = name, info_IsDir = True, info_Size = sz, info_ModTime = mt\<rparr>"

text \<open>
  What \<open>os.Lstat\<close> finds at a symbolic link whose target is missing: the call does not
  follow the link, so it succeeds and describes the link itself, which is not a
  directory.
\<close>

definition broken_symlink :: "int64 \<Rightarrow> string \<Rightarrow> node" where
  "broken_symlink sz mt = File sz mt"

text \<open>The calls into the operating system, in the order they are made.\<close>

datatype fs_call = Stat string | Lstat string | ReadDir string

text \<open>
  \<open>filepath.Base\<close> on Unix: an empty path is \<open>.\<close>; trailing separators are removed,
  then everything up to the last separator; a path of separators only is \<open>/\<close>.
\<close>

definition Base :: "string \<Rightarrow> string" where
  "Base path =
     (if path = [] then ''.''
      else
        let stripped = rev (dropWhile (\<lambda>c. c = CHR ''/'') (rev path));
            last_element = rev (takeWhile (\<lambda>c. c \<noteq> CHR ''/'') (rev stripped))
        in if last_element = [] then ''/'' else last_element)"

text \<open>
  \<open>filepath.Clean\<close> on Unix. The library scans the path once and writes the result
  into a buffer; here the path is split at the separators and the elements are pushed on
  a stack, which comes to the same: an empty element and \<open>.\<close> are dropped; \<open>..\<close> removes
  the element before it, is dropped at the top of a rooted path, and is kept where an
  unrooted path has nothing left to remove; the elements kept are joined by single
  separators, after the leading separator of a rooted path, and an unrooted path with
  nothing kept is \<open>.\<close>.
\<close>

fun split_path :: "string \<Rightarrow> string list" where
  "split_path [] = [[]]"
| "split_path (c # cs) =
     (if c = CHR ''/'' then [] # split_path cs
      else (case split_path cs of [] \<Rightarrow> [[c]] | x # xs \<Rightarrow> (c # x) # xs))"

fun join_sep :: "string list \<Rightarrow> string" where
  "join_sep [] = []"
| "join_sep [x] = x"
| "join_sep (x # y # ys) = x @ ''/'' @ join_sep (y # ys)"

text \<open>One element of the path; the elements kept so far are a stack, the last one first.\<close>

definition clean_step :: "bool \<Rightarrow> string list \<Rightarrow> string \<Rightarrow> string list" where
  "clean_step rooted stack elem =
     (if elem = [] \<or> elem = ''.'' then stack
      else if elem = ''..''
      then (case stack of
              [] \<Rightarrow> (if rooted then [] else [''..''])
            | last_elem # below \<Rightarrow>
                if last_elem \<noteq> ''..'' then below else if rooted then stack else ''..'' # stack)
      else elem # stack)"

definition rendered :: "bool \<Rightarrow> string list \<Rightarrow> string" where
  "rendered rooted stack =
     (let out = join_sep (rev stack)
      in if rooted then ''/'' @ out else if out = [] then ''.'' else out)"

definition Clean :: "string \<Rightarrow> string" where
  "Clean path =
     (if path = [] then ''.''
      else
        let rooted = (hd path = CHR ''/'')
        in rendered rooted (foldl (clean_step rooted) [] (split_path path)))"

text \<open>
  \<open>filepath.Join\<close> of two elements: the elements from the first that is not empty are
  joined by a separator and cleaned; two empty elements give the empty string.
\<close>

definition Join :: "string \<Rightarrow> string \<Rightarrow> string" where
  "Join path name =
     (if path \<noteq> [] then Clean (path @ ''/'' @ name)
      else if name \<noteq> [] then Clean name
      else [])"

text \<open>
  The arguments \<open>(info, err)\<close> of a \<open>WalkFunc\<close>: either the entry's \<open>FileInfo\<close> and no
  error, or an error, with the \<open>FileInfo\<close> if \<open>os.Lstat\<close> had succeeded.
\<close>

datatype visit = Entry FileInfo | Problem "FileInfo option"

type_synonym 's WalkFunc = "string \<Rightarrow> visit \<Rightarrow> 's \<Rightarrow> walk_error option \<times> 's"

text \<open>
  \<open>filepath.walk\<close> and its loop over the names of a directory. The state of the callback
  and the log of system calls are threaded through. A directory is listed before the
  callback sees it; the callback's error, or a failed listing, ends the visit of the
  directory with the callback's result. In the loop, \<open>SkipDir\<close> from a directory (or
  from the callback on an entry that \<open>os.Lstat\<close> could not read) only ends that
  entry; any other error ends the walk.
\<close>

fun walk :: "'s WalkFunc \<Rightarrow> string \<Rightarrow> FileInfo \<Rightarrow> node \<Rightarrow> 's \<times> fs_call list
              \<Rightarrow> walk_error option \<times> 's \<times> fs_call list"
  and walk_names :: "'s WalkFunc \<Rightarrow> string \<Rightarrow> (string \<times> node option) list
              \<Rightarrow> 's \<times> fs_call list \<Rightarrow> walk_error option \<times> 's \<times> fs_call list"
where
  "walk walkFn path info (File sz mt) (s, log) =
     (let (err, s') = walkFn path (Entry info) s in (err, s', log))"
| "walk walkFn path info (Unreadable sz mt) (s, log) =
     (let (err1, s') = walkFn path (Problem (Some info)) s in (err1, s', log @ [ReadDir path]))"
| "walk walkFn path info (Dir sz mt entries) (s, log) =
     (let (err1, s') = walkFn path (Entry info) s
      in if err1 \<noteq> None then (err1, s', log @ [ReadDir path])
         else walk_names walkFn path entries (s', log @ [ReadDir path]))"
| "walk_names walkFn path [] (s, log) = (None, s, log)"
| "walk_names walkFn path ((name, None) # rest) (s, log) =
     (let filename = Join path name;
          (err, s') = walkFn filename (Problem None) s
      in if err \<noteq> None \<and> err \<noteq> Some SkipDir then (err, s', log @ [Lstat filename])
         else walk_names walkFn path rest (s', log @ [Lstat filename]))"
| "walk_names walkFn path ((name, Some child) # rest) (s, log) =
     (let filename = Join path name;
          fileInfo = lstat_info name child;
          (err, s', log') = walk walkFn filename fileInfo child (s, log @ [Lstat filename])
      in if err \<noteq> None \<and> (\<not> info_IsDir fileInfo \<or> err \<noteq> Some SkipDir) then (err, s', log')
         else walk_names walkFn path rest (s', log'))"

text \<open>
  \<open>filepath.Walk\<close>: \<open>os.Lstat\<close> on the root, then the callback with the error or the
  walk; \<open>SkipDir\<close> and \<open>SkipAll\<close> at the top are no error. The \<open>FileInfo\<close> of the root
  has the last element of the root path as its name.
\<close>

definition Walk :: "string \<Rightarrow> 's WalkFunc \<Rightarrow> node option \<Rightarrow> 's \<times> fs_call list
              \<Rightarrow> walk_error option \<times> 's \<times> fs_call list" where
  "Walk root fn tree st =
     (let (s, log) = st;
          (err, s', log') =
            (case tree of
               None \<Rightarrow> (let (err, s') = fn root (Problem None) s in (err, s', log @ [Lstat root]))
             | Some nd \<Rightarrow> walk fn root (lstat_info (Base root) nd) nd (s, log @ [Lstat root]))
      in if err = Some SkipDir \<or> err = Some SkipAll then (None, s', log') else (err, s', log'))"

subsection \<open>search.SearchFiles\<close>

definition shouldSkipDirectory :: "string \<Rightarrow> bool" where
  "shouldSkipDirectory path =
     (let base = Base path
      in HasPrefix base ''.'' \<or> base = ''node_modules'' \<or> base = ''Library''
         \<or> base = ''System'' \<or> base = ''Applications'')"

text \<open>
  The part of the callback that both revisions share: the test of a file that is not a
  directory, and the record appended on a match.
\<close>

definition visit_file ::
  "(nat \<Rightarrow> nat) \<Rightarrow> string \<Rightarrow> SearchOptions \<Rightarrow> string \<Rightarrow> FileInfo \<Rightarrow> SearchResult list
    \<Rightarrow> walk_error option \<times> SearchResult list" where
  "visit_file tbl pattern opts path info results =
     (if HasPrefix (info_Name info) ''.'' then (None, results)
      else
        let fileName = (if \<not> CaseSensitive opts then ToLower tbl (info_Name info)
                        else info_Name info);
            searchPattern = (if \<not> CaseSensitive opts then ToLower tbl pattern else pattern);
            matches = (if ExactMatch opts then fileName = searchPattern
                       else Contains fileName searchPattern)
        in if matches
           then (None, results @ [\<lparr>Path = path, Name = info_Name info, Size = info_Size info,
                                   ModTime = info_ModTime info\<rparr>])
           else (None, results))"

text \<open>
  The callback of the revision that validates its arguments: an error is swallowed; a
  directory below the root is skipped when the search is not recursive, and any
  directory is skipped when \<open>shouldSkipDirectory\<close> says so.
\<close>

definition visit_entry ::
  "(nat \<Rightarrow> nat) \<Rightarrow> string \<Rightarrow> string \<Rightarrow> SearchOptions \<Rightarrow> SearchResult list WalkFunc" where
  "visit_entry tbl pattern root opts path v results =
     (case v of
        Problem _ \<Rightarrow> (None, results)
      | Entry info \<Rightarrow>
          if info_IsDir info
          then (if path \<noteq> root \<and> \<not> Recursive opts then (Some SkipDir, results)
                else if shouldSkipDirectory path then (Some SkipDir, results)
                else (None, results))
          else visit_file tbl pattern opts path info results)"

text \<open>The callback of the other revision, which asks \<open>shouldSkipDirectory\<close> first.\<close>

definition visit_entry_skip_first ::
  "(nat \<Rightarrow> nat) \<Rightarrow> string \<Rightarrow> string \<Rightarrow> SearchOptions \<Rightarrow> SearchResult list WalkFunc" where
  "visit_entry_skip_first tbl pattern root opts path v results =
     (case v of
        Problem _ \<Rightarrow> (None, results)
      | Entry info \<Rightarrow>
          if info_IsDir info
          then (if shouldSkipDirectory path then (Some SkipDir, results)
                else if path \<noteq> root \<and> \<not> Recursive opts then (Some SkipDir, results)
                else (None, results))
          else visit_file tbl pattern opts path info results)"

text \<open>
  \<open>SearchFiles\<close>, the revision with \<open>ErrEmptyPattern\<close> and \<open>ErrInvalidPath\<close>. The file
  system is given by the outcome of \<open>os.Stat(root)\<close> and by what lies under the root.
  The result is paired with the log of system calls.
\<close>

definition SearchFiles ::
  "(nat \<Rightarrow> nat) \<Rightarrow> string \<Rightarrow> string \<Rightarrow> SearchOptions \<Rightarrow> bool \<Rightarrow> node option
    \<Rightarrow> (error + SearchResult list) \<times> fs_call list" where
  "SearchFiles tbl pattern root opts stat_ok tree =
     (if pattern = [] then (Inl ErrEmptyPattern, [])
      else if \<not> stat_ok then (Inl ErrInvalidPath, [Stat root])
      else
        let (err, results, log) =
              Walk root (visit_entry tbl pattern root opts) tree ([], [Stat root])
        in case err of
             Some e \<Rightarrow> (Inl (WalkError e), log)
           | None \<Rightarrow> (Inr results, log))"

text \<open>
  \<open>SearchFiles\<close>, the revision without validation: \<open>return results, err\<close> hands back
  both the records and the error of \<open>filepath.Walk\<close>.
\<close>

definition SearchFiles_unvalidated ::
  "(nat \<Rightarrow> nat) \<Rightarrow> string \<Rightarrow> string \<Rightarrow> SearchOptions \<Rightarrow> node option
    \<Rightarrow> (SearchResult list \<times> walk_error option) \<times> fs_call list" where
  "SearchFiles_unvalidated tbl pattern root opts tree =
     (let (err, results, log) =
            Walk root (visit_entry_skip_first tbl pattern root opts) tree ([], [])
      in ((results, err), log))"

subsection \<open>Notions for stating the properties\<close>

text \<open>
  Every entry below a node that is not a directory and that \<open>os.Lstat\<close> can read,
  as the record \<open>SearchFiles\<close> would build for it, together with the paths of the
  directories that enclose it, outermost first. Nothing is skipped here.
\<close>

fun files_at :: "string \<Rightarrow> string \<Rightarrow> node \<Rightarrow> (string list \<times> SearchResult) list"
  and files_in :: "string \<Rightarrow> (string \<times> node option) list \<Rightarrow> (string list \<times> SearchResult) list"
where
  "files_at path name (File sz mt) =
     [([], \<lparr>Path = path, Name = name, Size = sz, ModTime = mt\<rparr>)]"
| "files_at path name (Unreadable sz mt) = []"
| "files_at path name (Dir sz mt entries) =
     map (\<lambda>(dirs, r). (path # dirs, r)) (files_in path entries)"
| "files_in path [] = []"
| "files_in path ((name, None) # rest) = files_in path rest"
| "files_in path ((name, Some child) # rest) =
     files_at (Join path name) name child @ files_in path rest"

definition files_below :: "string \<Rightarrow> node option \<Rightarrow> (string list \<times> SearchResult) list" where
  "files_below root tree =
     (case tree of None \<Rightarrow> [] | Some nd \<Rightarrow> files_at root (Base root) nd)"

text \<open>
  The names that occur in the listings of a tree, at any depth.
\<close>

fun names_at :: "node \<Rightarrow> string set"
  and names_in :: "(string \<times> node option) list \<Rightarrow> string set"
where
  "names_at (File sz mt) = {}"
| "names_at (Unreadable sz mt) = {}"
| "names_at (Dir sz mt entries) = names_in entries"
| "names_in [] = {}"
| "names_in ((name, None) # rest) = insert name (names_in rest)"
| "names_in ((name, Some child) # rest) = insert name (names_at child \<union> names_in rest)"

definition names_below :: "node option \<Rightarrow> string set" where
  "names_below tree = (case tree of None \<Rightarrow> {} | Some nd \<Rightarrow> names_at nd)"

text \<open>
  The names a directory listing holds: not empty, neither \<open>.\<close> nor \<open>..\<close>, and without a
  separator.
\<close>

definition proper_name :: "string \<Rightarrow> bool" where
  "proper_name name =
     (name \<noteq> [] \<and> name \<noteq> ''.'' \<and> name \<noteq> ''..'' \<and> CHR ''/'' \<notin> set name)"

text \<open>
  A stack of path elements on which \<open>Clean\<close> has nothing left to do: no element is empty
  or \<open>.\<close>, and \<open>..\<close> stands only at the bottom of an unrooted path.
\<close>

fun settled :: "bool \<Rightarrow> string list \<Rightarrow> bool" where
  "settled rooted [] = True"
| "settled rooted (elem # below) =
     (elem \<noteq> [] \<and> elem \<noteq> ''.''
      \<and> (elem = ''..'' \<longrightarrow> \<not> rooted \<and> (\<forall>x \<in> set below. x = ''..''))
      \<and> settled rooted below)"

text \<open>The walk enters a directory when the callback returns no error for it.\<close>

definition enters :: "string \<Rightarrow> SearchOptions \<Rightarrow> string \<Rightarrow> bool" where
  "enters root opts dir = ((dir = root \<or> Recursive opts) \<and> \<not> shouldSkipDirectory dir)"

text \<open>
  The matching rule in the words of the specification: both strings are lower-cased
  unless the search is case sensitive; then the name equals the pattern, or contains it
  as a contiguous substring.
\<close>

definition matching_rule :: "(nat \<Rightarrow> nat) \<Rightarrow> string \<Rightarrow> SearchOptions \<Rightarrow> string \<Rightarrow> bool" where
  "matching_rule tbl pattern opts name =
     (let n = (if CaseSensitive opts then name else ToLower tbl name);
          p = (if CaseSensitive opts then pattern else ToLower tbl pattern)
      in if ExactMatch opts then n = p else (\<exists>before after. n = before @ p @ after))"

definition is_dir :: "node \<Rightarrow> bool" where
  "is_dir nd = (case nd of File sz mt \<Rightarrow> False | _ \<Rightarrow> True)"

text \<open>
  A tree without the entries whose access fails: the entries that \<open>os.Lstat\<close> cannot
  read and the directories that cannot be listed are left out of every listing.
\<close>

fun readable :: "node \<Rightarrow> node"
  and readable_entries :: "(string \<times> node option) list \<Rightarrow> (string \<times> node option) list"
where
  "readable (File sz mt) = File sz mt"
| "readable (Unreadable sz mt) = Unreadable sz mt"
| "readable (Dir sz mt entries) = Dir sz mt (readable_entries entries)"
| "readable_entries [] = []"
| "readable_entries ((name, None) # rest) = readable_entries rest"
| "readable_entries ((name, Some (Unreadable sz mt)) # rest) = readable_entries rest"
| "readable_entries ((name, Some (File sz mt)) # rest) =
     (name, Some (File sz mt)) # readable_entries rest"
| "readable_entries ((name, Some (Dir sz mt entries)) # rest) =
     (name, Some (readable (Dir sz mt entries))) # readable_entries rest"

text \<open>
  The test a file passes to be reported, and the records reported for a list of files:
  every enclosing directory is entered, the name is not hidden, and the name matches.
\<close>

definition kept :: "(nat \<Rightarrow> nat) \<Rightarrow> string \<Rightarrow> string \<Rightarrow> SearchOptions \<Rightarrow> string list \<times> SearchResult \<Rightarrow> bool" where
  "kept tbl pattern root opts x =
     ((\<forall>d \<in> set (fst x). enters root opts d) \<and> \<not> HasPrefix (Name (snd x)) ''.''
      \<and> matching_rule tbl pattern opts (Name (snd x)))"

definition emitted :: "(nat \<Rightarrow> nat) \<Rightarrow> string \<Rightarrow> string \<Rightarrow> SearchOptions \<Rightarrow> (string list \<times> SearchResult) list \<Rightarrow> SearchResult list" where
  "emitted tbl pattern root opts xs = map snd (filter (kept tbl pattern root opts) xs)"

subsection \<open>Example data\<close>

text \<open>
  Two small trees for running the search: a directory with one file whose name has a
  Cyrillic capital letter, searched without case sensitivity under a case table for the
  Russian capitals; and a home directory with a hidden directory, an entry that vanished
  and a directory that cannot be listed.
\<close>

definition cyrillic_lower :: "nat \<Rightarrow> nat" where
  "cyrillic_lower r = (if 0x410 \<le> r \<and> r \<le> 0x42F then r + 0x20 else r)"

definition insensitive :: SearchOptions where
  "insensitive = \<lparr>Recursive = True, ExactMatch = False, CaseSensitive = False\<rparr>"

definition stamp :: string where
  "stamp = ''2024-03-20 10:00:00''"

definition name_F_TXT :: string where
  "name_F_TXT = [CHR 0xD0, CHR 0xA4] @ ''.TXT''"

definition pattern_f_t :: string where
  "pattern_f_t = [CHR 0xD1, CHR 0x84] @ ''.t''"

definition data_dir :: node where
  "data_dir = Dir 4096 stamp [(name_F_TXT, Some (File 10 stamp))]"

definition record_F_TXT :: SearchResult where
  "record_F_TXT = \<lparr>Path = ''/data/'' @ name_F_TXT, Name = name_F_TXT, Size = 10, ModTime = stamp\<rparr>"

definition sensitive :: SearchOptions where
  "sensitive = \<lparr>Recursive = True, ExactMatch = False, CaseSensitive = True\<rparr>"

definition flat :: SearchOptions where
  "flat = \<lparr>Recursive = False, ExactMatch = False, CaseSensitive = True\<rparr>"

definition home_entries :: "(string \<times> node option) list" where
  "home_entries =
     [(''.git'', Some (Dir 4096 stamp [(''config-2024'', Some (File 92 stamp))])),
      (''Documents'', Some (Dir 4096 stamp
         [(''gone-2024'', None),
          (''locked'', Some (Unreadable 4096 stamp)),
          (''report-2024.pdf'', Some (File 2048 stamp))])),
      (''notes-2024.txt'', Some (File 1024 stamp))]"

definition home_dir :: node where
  "home_dir = Dir 4096 stamp home_entries"

definition report_record :: SearchResult where
  "report_record = \<lparr>Path = ''/home/u/Documents/report-2024.pdf'', Name = ''report-2024.pdf'',
     Size = 2048, ModTime = stamp\<rparr>"

definition notes_record :: SearchResult where
  "notes_record = \<lparr>Path = ''/home/u/notes-2024.txt'', Name = ''notes-2024.txt'',
     Size = 1024, ModTime = stamp\<rparr>"

definition config_record :: SearchResult where
  "config_record = \<lparr>Path = ''/home/u/.git/config-2024'', Name = ''config-2024'',
     Size = 92, ModTime = stamp\<rparr>"

text \<open>
  A project directory that lies inside a hidden directory, \<open>/home/u/.hidden/proj\<close>, to
  be searched as the root.
\<close>

definition proj_dir :: node where
  "proj_dir = Dir 4096 stamp [(''notes-2024.txt'', Some (File 1024 stamp))]"

definition proj_notes_record :: SearchResult where
  "proj_notes_record = \<lparr>Path = ''/home/u/.hidden/proj/notes-2024.txt'',
     Name = ''notes-2024.txt'', Size = 1024, ModTime = stamp\<rparr>"

text \<open>A directory that holds a symbolic link whose target is missing.\<close>

definition link_dir :: node where
  "link_dir = Dir 4096 stamp [(''dangling-2024'', Some (broken_symlink 11 stamp))]"

definition dangling_record :: SearchResult where
  "dangling_record = \<lparr>Path = ''/home/u/dangling-2024'', Name = ''dangling-2024'',
     Size = 11, ModTime = stamp\<rparr>"

text \<open>A name of four Cyrillic letters (U+0444, U+0430, U+0439, U+043B) and \<open>.txt\<close>, in UTF-8.\<close>

definition name_fajl_txt :: string where
  "name_fajl_txt = [CHR 0xD1, CHR 0x84, CHR 0xD0, CHR 0xB0, CHR 0xD0, CHR 0xB9, CHR 0xD0, CHR 0xBB] @ ''.txt''"

text \<open>The two records of the presenter test, of 1024 and 2048 bytes.\<close>

definition file1_record :: SearchResult where
  "file1_record = \<lparr>Path = ''/path/to/file1.txt'', Name = ''file1.txt'', Size = 1024,
     ModTime = ''2024-03-20 10:00:00''\<rparr>"

definition file2_record :: SearchResult where
  "file2_record = \<lparr>Path = ''/path/to/file2.txt'', Name = ''file2.txt'', Size = 2048,
     ModTime = ''2024-03-20 11:00:00''\<rparr>"

section \<open>Properties\<close>

subsection \<open>FormatSize\<close>

lemma FormatSize_small:
  "sz \<noteq> 0 \<Longrightarrow> 0 \<le> sint sz \<Longrightarrow> sint sz < 1024 \<Longrightarrow> FormatSize sz = fmt_d (sint sz) @ '' B''"
  by (simp add: FormatSize_def)

lemma FormatSize_large:
  assumes "1024 \<le> sint sz" and "FormatSize_loop (quo (sint sz) 1024) 1024 0 = (dv, exp)"
  shows "FormatSize sz = fmt_f1 (float64_div (float64_of_int (sint sz)) (float64_of_int dv))
                @ '' '' @ [''KMGTPE'' ! exp] @ ''B''"
proof -
  from assms(1) have "sz \<noteq> 0" by auto
  with assms show ?thesis by (simp add: FormatSize_def)
qed

lemma FormatSize_negative_large:
  assumes "sint sz < 0" and "wrap64 (- sint sz) = m" and "1024 \<le> m"
    and "FormatSize_loop (quo m 1024) 1024 0 = (dv, exp)"
  shows "FormatSize sz = ''-'' @ fmt_f1 (float64_div (float64_of_int m) (float64_of_int dv))
                @ '' '' @ [''KMGTPE'' ! exp] @ ''B''"
proof -
  from assms(1) have "sz \<noteq> 0" by auto
  with assms show ?thesis by (simp add: FormatSize_def)
qed

lemmas float64_eval =
  float64_div_def float64_of_int_def round53_def binade_def bit_len.simps round_half_even_def
  Let_def

lemmas fmt_eval = fmt_f1_def fmt_d_def fmt_nat.simps digit_def

lemma FormatSize_0: "FormatSize 0 = ''0 B''"
  by (simp add: FormatSize_def)

lemma FormatSize_1: "FormatSize 1 = ''1 B''"
  using FormatSize_small [of 1] by (simp add: fmt_eval)

lemma FormatSize_1024: "FormatSize 1024 = ''1.0 KB''"
proof -
  have l: "FormatSize_loop (quo (sint (1024::int64)) 1024) 1024 0 = (1024, 0)"
    by (simp add: FormatSize_loop.simps quo_def)
  have f: "fmt_f1 (float64_div (float64_of_int 1024) (float64_of_int 1024)) = ''1.0''"
    by (simp add: float64_eval fmt_eval)
  show ?thesis
    using FormatSize_large [OF _ l] by (simp add: f)
qed

lemma FormatSize_1536: "FormatSize 1536 = ''1.5 KB''"
proof -
  have l: "FormatSize_loop (quo (sint (1536::int64)) 1024) 1024 0 = (1024, 0)"
    by (simp add: FormatSize_loop.simps quo_def)
  have f: "fmt_f1 (float64_div (float64_of_int 1536) (float64_of_int 1024)) = ''1.5''"
    by (simp add: float64_eval fmt_eval)
  show ?thesis
    using FormatSize_large [OF _ l] by (simp add: f)
qed

lemma FormatSize_2048: "FormatSize 2048 = ''2.0 KB''"
proof -
  have l: "FormatSize_loop (quo (sint (2048::int64)) 1024) 1024 0 = (1024, 0)"
    by (simp add: FormatSize_loop.simps quo_def)
  have f: "fmt_f1 (float64_div (float64_of_int 2048) (float64_of_int 1024)) = ''2.0''"
    by (simp add: float64_eval fmt_eval)
  show ?thesis
    using FormatSize_large [OF _ l] by (simp add: f)
qed

lemma FormatSize_3072: "FormatSize 3072 = ''3.0 KB''"
proof -
  have l: "FormatSize_loop (quo (sint (3072::int64)) 1024) 1024 0 = (1024, 0)"
    by (simp add: FormatSize_loop.simps quo_def)
  have f: "fmt_f1 (float64_div (float64_of_int 3072) (float64_of_int 1024)) = ''3.0''"
    by (simp add: float64_eval fmt_eval)
  show ?thesis
    using FormatSize_large [OF _ l] by (simp add: f)
qed

lemma FormatSize_MB: "FormatSize (1024 * 1024) = ''1.0 MB''"
proof -
  have l: "FormatSize_loop (quo (sint (1048576::int64)) 1024) 1024 0 = (1048576, 1)"
    by (simp add: FormatSize_loop.simps quo_def wrap64_def)
  have f: "fmt_f1 (float64_div (float64_of_int 1048576) (float64_of_int 1048576)) = ''1.0''"
    by (simp add: float64_eval fmt_eval)
  show ?thesis
    using FormatSize_large [OF _ l] by (simp add: f)
qed

text \<open>
  The greatest \<open>int64\<close> is not a \<open>float64\<close>: the conversion rounds it up to \<open>2^63\<close>,
  and \<open>2^63 / 2^60\<close> is 8.
\<close>

lemma float64_of_max_int64: "float64_of_int 9223372036854775807 = (2 ^ 63, 1)"
  by (simp add: float64_eval)

lemma FormatSize_max: "FormatSize 9223372036854775807 = ''8.0 EB''"
proof -
  have l: "FormatSize_loop (quo (sint (9223372036854775807::int64)) 1024) 1024 0
             = (1152921504606846976, 5)"
    by (simp add: FormatSize_loop.simps quo_def wrap64_def)
  have f: "fmt_f1 (float64_div (float64_of_int 9223372036854775807)
             (float64_of_int 1152921504606846976)) = ''8.0''"
    by (simp add: float64_eval fmt_eval)
  show ?thesis
    using FormatSize_large [OF _ l] by (simp add: f)
qed

lemma FormatSize_neg_1024: "FormatSize (- 1024) = ''-1.0 KB''"
proof -
  have l: "FormatSize_loop (quo 1024 1024) 1024 0 = (1024, 0)"
    by (simp add: FormatSize_loop.simps quo_def)
  have f: "fmt_f1 (float64_div (float64_of_int 1024) (float64_of_int 1024)) = ''1.0''"
    by (simp add: float64_eval fmt_eval)
  have w: "wrap64 (- sint (- 1024 :: int64)) = 1024"
    by (simp add: wrap64_def)
  show ?thesis
    using FormatSize_negative_large [OF _ w _ l] by (simp add: f)
qed

text \<open>
  C4. \<open>FormatSize\<close> on the boundary table of the specification: 0, 1, 1024, 1536,
  \<open>1024 * 1024\<close>, \<open>-1024\<close> and the greatest \<open>int64\<close> are rendered as \<open>0 B\<close>, \<open>1 B\<close>,
  \<open>1.0 KB\<close>, \<open>1.5 KB\<close>, \<open>1.0 MB\<close>, \<open>-1.0 KB\<close> and \<open>8.0 EB\<close>.
\<close>

theorem FormatSize_boundary_table:
  "FormatSize 0 = ''0 B'' \<and>
   FormatSize 1 = ''1 B'' \<and>
   FormatSize 1024 = ''1.0 KB'' \<and>
   FormatSize 1536 = ''1.5 KB'' \<and>
   FormatSize (1024 * 1024) = ''1.0 MB'' \<and>
   FormatSize (- 1024) = ''-1.0 KB'' \<and>
   FormatSize 9223372036854775807 = ''8.0 EB''"
  using FormatSize_0 FormatSize_1 FormatSize_1024 FormatSize_1536 FormatSize_MB
    FormatSize_neg_1024 FormatSize_max
  by blast

text \<open>
  The sign rule behind the row for \<open>-1024\<close>: a negative size other than the least
  \<open>int64\<close> is rendered as \<open>-\<close> followed by the rendering of its absolute value. At the
  least \<open>int64\<close> the negation wraps, and the byte branch prints the sign twice.
\<close>

lemma wrap64_neg_sint: "wrap64 (- sint (sz :: int64)) = sint (- sz)"
  by (simp add: wrap64_def)

lemma sint_neg_pos:
  fixes sz :: int64
  assumes "sint sz < 0" and "sz \<noteq> - 9223372036854775808"
  shows "0 < sint (- sz)"
proof -
  have ne: "sint sz \<noteq> - 9223372036854775808"
  proof
    assume "sint sz = - 9223372036854775808"
    then have "word_of_int (sint sz) = (word_of_int (- 9223372036854775808) :: int64)"
      by simp
    then have "sz = - 9223372036854775808"
      by simp
    with assms(2) show False by simp
  qed
  have "- (2 ^ 63) \<le> sint sz"
    using sint_ge [of sz] by simp
  with ne assms(1) have r: "- (2 ^ 63) \<le> - sint sz" "- sint sz < 2 ^ 63" "0 < - sint sz"
    by simp_all
  have "sint (- sz) = signed_take_bit 63 (- sint sz)"
    by (simp add: sint_word_minus)
  also have "\<dots> = - sint sz"
    using r(1,2) by (rule signed_take_bit_int_eq_self)
  finally show ?thesis using r(3) by simp
qed

lemma FormatSize_negate:
  fixes sz :: int64
  assumes "sint sz < 0" and "sz \<noteq> - 9223372036854775808"
  shows "FormatSize sz = ''-'' @ FormatSize (- sz)"
proof -
  have p: "0 < sint (- sz)" using assms by (rule sint_neg_pos)
  then have nz: "- sz \<noteq> 0" by auto
  from assms(1) have "sz \<noteq> 0" by auto
  with assms(1) p nz show ?thesis
    by (simp add: FormatSize_def wrap64_neg_sint Let_def split: prod.splits)
qed

lemma FormatSize_least_int64:
  "FormatSize (- 9223372036854775808) = ''--9223372036854775808 B''"
  by (simp add: FormatSize_def wrap64_def fmt_eval)

text \<open>The revision without sign handling prints \<open>-1024\<close> in bytes.\<close>

lemma FormatSize_unsigned_neg_1024: "FormatSize_unsigned (- 1024) = ''-1024 B''"
  by (simp add: FormatSize_unsigned_def fmt_eval)

subsection \<open>The walk\<close>

lemma HasPrefix_iff: "HasPrefix s pre \<longleftrightarrow> (\<exists>t. s = pre @ t)"
proof
  assume "HasPrefix s pre"
  then have "s = pre @ drop (length pre) s"
    by (metis HasPrefix_def append_take_drop_id)
  then show "\<exists>t. s = pre @ t" ..
next
  assume "\<exists>t. s = pre @ t"
  then show "HasPrefix s pre" by (auto simp: HasPrefix_def)
qed

lemma Contains_iff: "Contains s sub \<longleftrightarrow> (\<exists>before after. s = before @ sub @ after)"
proof (induction s)
  case Nil
  then show ?case by auto
next
  case (Cons c cs)
  show ?case
  proof
    assume "Contains (c # cs) sub"
    then consider "HasPrefix (c # cs) sub" | "Contains cs sub" by auto
    then show "\<exists>before after. c # cs = before @ sub @ after"
    proof cases
      case 1
      then obtain t where "c # cs = sub @ t" by (auto simp: HasPrefix_iff)
      then have "c # cs = [] @ sub @ t" by simp
      then show ?thesis by blast
    next
      case 2
      with Cons.IH obtain b a where "cs = b @ sub @ a" by blast
      then have "c # cs = (c # b) @ sub @ a" by simp
      then show ?thesis by blast
    qed
  next
    assume "\<exists>before after. c # cs = before @ sub @ after"
    then obtain b a where e: "c # cs = b @ sub @ a" by blast
    show "Contains (c # cs) sub"
    proof (cases b)
      case Nil
      with e have "HasPrefix (c # cs) sub" by (auto simp: HasPrefix_iff)
      then show ?thesis by simp
    next
      case (Cons b0 bs)
      with e have "cs = bs @ sub @ a" by simp
      with Cons.IH have "Contains cs sub" by blast
      then show ?thesis by simp
    qed
  qed
qed

lemma visit_file_eq:
  "visit_file tbl pattern opts path info rs =
     (None, if \<not> HasPrefix (info_Name info) ''.'' \<and> matching_rule tbl pattern opts (info_Name info)
            then rs @ [\<lparr>Path = path, Name = info_Name info, Size = info_Size info,
                        ModTime = info_ModTime info\<rparr>]
            else rs)"
  by (simp add: visit_file_def matching_rule_def Contains_iff Let_def)

lemma emitted_append: "emitted tbl pattern root opts (xs @ ys) = emitted tbl pattern root opts xs @ emitted tbl pattern root opts ys"
  by (simp add: emitted_def)

lemma emitted_Nil: "emitted tbl pattern root opts [] = []"
  by (simp add: emitted_def)

lemma emitted_enclosed:
  "emitted tbl pattern root opts (map (\<lambda>(dirs, r). (d # dirs, r)) xs) =
     (if enters root opts d then emitted tbl pattern root opts xs else [])"
  by (induction xs) (auto simp: emitted_def kept_def)

lemma info_IsDir_lstat_info: "info_IsDir (lstat_info name nd) = is_dir nd"
  by (cases nd) (simp_all add: is_dir_def)

lemma info_Name_lstat_info: "info_Name (lstat_info name nd) = name"
  by (cases nd) simp_all

lemma visit_entry_dir:
  "info_IsDir info \<Longrightarrow>
     visit_entry tbl pattern root opts path (Entry info) rs =
       (if enters root opts path then None else Some SkipDir, rs)"
  by (auto simp: visit_entry_def enters_def)

lemma walk_emitted:
  "\<forall>rs lg. \<exists>e lg'. walk (visit_entry tbl pattern root opts) path (lstat_info name nd) nd (rs, lg)
               = (e, rs @ emitted tbl pattern root opts (files_at path name nd), lg')
            \<and> (e = None \<or> e = Some SkipDir \<and> is_dir nd)"
  and walk_names_emitted:
  "\<forall>rs lg. \<exists>lg'. walk_names (visit_entry tbl pattern root opts) path es (rs, lg)
               = (None, rs @ emitted tbl pattern root opts (files_in path es), lg')"
proof (induction path name nd and path es rule: files_at_files_in.induct)
  case (1 path name sz mt)
  show ?case
    by (simp add: visit_entry_def visit_file_eq emitted_def kept_def)
next
  case (2 path name sz mt)
  show ?case
    by (simp add: visit_entry_def emitted_def is_dir_def)
next
  case (3 path name sz mt entries)
  show ?case
  proof (intro allI)
    fix rs lg
    from 3 obtain lg' where
      "walk_names (visit_entry tbl pattern root opts) path entries (rs, lg @ [ReadDir path])
         = (None, rs @ emitted tbl pattern root opts (files_in path entries), lg')"
      by blast
    then show "\<exists>e lg'. walk (visit_entry tbl pattern root opts) path
                 (lstat_info name (Dir sz mt entries)) (Dir sz mt entries) (rs, lg)
               = (e, rs @ emitted tbl pattern root opts (files_at path name (Dir sz mt entries)), lg')
            \<and> (e = None \<or> e = Some SkipDir \<and> is_dir (Dir sz mt entries))"
      by (simp add: visit_entry_dir emitted_enclosed is_dir_def)
  qed
next
  case (4 path)
  show ?case by (simp add: emitted_def)
next
  case (5 path name rest)
  then show ?case
    by (simp add: visit_entry_def)
next
  case (6 path name child rest)
  show ?case
  proof (intro allI)
    fix rs lg
    from 6(1) obtain e lg1 where
      w: "walk (visit_entry tbl pattern root opts) (Join path name) (lstat_info name child) child
            (rs, lg @ [Lstat (Join path name)])
          = (e, rs @ emitted tbl pattern root opts (files_at (Join path name) name child), lg1)"
      and e: "e = None \<or> e = Some SkipDir \<and> is_dir child"
      by blast
    from 6(2) obtain lg2 where
      n: "walk_names (visit_entry tbl pattern root opts) path rest
            (rs @ emitted tbl pattern root opts (files_at (Join path name) name child), lg1)
          = (None, (rs @ emitted tbl pattern root opts (files_at (Join path name) name child))
               @ emitted tbl pattern root opts (files_in path rest), lg2)"
      by blast
    from e have c: "\<not> (e \<noteq> None \<and> (\<not> info_IsDir (lstat_info name child) \<or> e \<noteq> Some SkipDir))"
      by (auto simp: info_IsDir_lstat_info)
    show "\<exists>lg'. walk_names (visit_entry tbl pattern root opts) path ((name, Some child) # rest) (rs, lg)
               = (None, rs @ emitted tbl pattern root opts (files_in path ((name, Some child) # rest)), lg')"
      using w n e by (auto simp add: emitted_append Let_def info_IsDir_lstat_info)
  qed
qed

subsection \<open>SearchFiles\<close>

lemma SearchFiles_results:
  assumes "pattern \<noteq> []" and "stat_ok"
  shows "\<exists>lg. SearchFiles tbl pattern root opts stat_ok tree
           = (Inr (emitted tbl pattern root opts (files_below root tree)), lg)"
proof (cases tree)
  case None
  with assms show ?thesis
    by (simp add: SearchFiles_def Walk_def visit_entry_def files_below_def emitted_def)
next
  case (Some nd)
  from walk_emitted [of tbl pattern root opts root "Base root" nd]
  have "\<exists>e lg'. walk (visit_entry tbl pattern root opts) root (lstat_info (Base root) nd) nd
          ([], [Stat root, Lstat root])
        = (e, [] @ emitted tbl pattern root opts (files_at root (Base root) nd), lg')
      \<and> (e = None \<or> e = Some SkipDir \<and> is_dir nd)"
    by blast
  then obtain e lg' where
    w: "walk (visit_entry tbl pattern root opts) root (lstat_info (Base root) nd) nd
          ([], [Stat root, Lstat root])
        = (e, emitted tbl pattern root opts (files_at root (Base root) nd), lg')"
    and e: "e = None \<or> e = Some SkipDir \<and> is_dir nd"
    by auto
  from e w Some assms show ?thesis
    by (auto simp add: SearchFiles_def Walk_def files_below_def)
qed

lemma SearchFiles_Inr:
  assumes "SearchFiles tbl pattern root opts stat_ok tree = (Inr results, lg)"
  shows "pattern \<noteq> [] \<and> stat_ok \<and> results = emitted tbl pattern root opts (files_below root tree)"
proof -
  from assms have p: "pattern \<noteq> []" and s: "stat_ok"
    by (auto simp: SearchFiles_def split: if_splits)
  from SearchFiles_results [OF p s, of tbl root opts tree] assms p s show ?thesis
    by auto
qed

lemma set_emitted:
  "r \<in> set (emitted tbl pattern root opts xs) \<longleftrightarrow>
     (\<exists>dirs. (dirs, r) \<in> set xs \<and> kept tbl pattern root opts (dirs, r))"
  by (force simp: emitted_def)


text \<open>
  Joining the name of an entry to a path never gives the root again, whatever the root:
  the name becomes the last element of the cleaned path, and cleaning the result a second
  time would keep it.
\<close>

lemma split_path_not_Nil: "split_path s \<noteq> []"
  by (induction s) (auto split: list.splits)

lemma split_path_cut:
  "CHR ''/'' \<notin> set x \<Longrightarrow> split_path (x @ CHR ''/'' # rest) = x # split_path rest"
  by (induction x) auto

lemma split_path_whole: "CHR ''/'' \<notin> set x \<Longrightarrow> split_path x = [x]"
  by (induction x) auto

lemma split_path_last:
  "CHR ''/'' \<notin> set name \<Longrightarrow> split_path (p @ CHR ''/'' # name) = split_path p @ [name]"
proof (induction p)
  case Nil
  then show ?case by (simp add: split_path_whole)
next
  case (Cons c p)
  then show ?case
    using split_path_not_Nil [of p] by (cases "split_path p") auto
qed

lemma split_path_free: "x \<in> set (split_path s) \<Longrightarrow> CHR ''/'' \<notin> set x"
proof (induction s arbitrary: x)
  case Nil
  then show ?case by simp
next
  case (Cons c s)
  then show ?case
    by (cases "split_path s") (auto split: if_splits)
qed

lemma split_join_sep:
  "xs \<noteq> [] \<Longrightarrow> \<forall>x \<in> set xs. CHR ''/'' \<notin> set x \<Longrightarrow> split_path (join_sep xs) = xs"
proof (induction xs rule: join_sep.induct)
  case 1
  then show ?case by simp
next
  case (2 x)
  then show ?case by (simp add: split_path_whole)
next
  case (3 x y ys)
  then show ?case by (simp add: split_path_cut)
qed

lemma join_sep_not_Nil: "x \<in> set xs \<Longrightarrow> x \<noteq> [] \<Longrightarrow> join_sep xs \<noteq> []"
  by (induction xs rule: join_sep.induct) auto

lemma settled_step: "settled rooted stack \<Longrightarrow> settled rooted (clean_step rooted stack elem)"
  by (cases stack) (auto simp: clean_step_def)

lemma settled_foldl:
  "settled rooted stack \<Longrightarrow> settled rooted (foldl (clean_step rooted) stack elems)"
  by (induction elems arbitrary: stack) (simp_all add: settled_step)

lemma clean_step_settled:
  assumes "settled rooted (elem # stack)"
  shows "clean_step rooted stack elem = elem # stack"
proof (cases "elem = ''..''")
  case True
  with assms have nr: "\<not> rooted" and up: "\<forall>x \<in> set stack. x = ''..''"
    by simp_all
  show ?thesis
  proof (cases stack)
    case Nil
    with True nr show ?thesis
      by (simp add: clean_step_def)
  next
    case (Cons last_elem below)
    with up have "last_elem = ''..''" by simp
    with True nr Cons show ?thesis
      by (simp add: clean_step_def)
  qed
next
  case False
  moreover from assms have "elem \<noteq> []" "elem \<noteq> ''.''"
    by simp_all
  ultimately show ?thesis
    by (simp add: clean_step_def)
qed

lemma replay_settled:
  "settled rooted stack \<Longrightarrow> foldl (clean_step rooted) [] (rev stack) = stack"
  by (induction stack) (simp_all add: clean_step_settled)

lemma clean_step_elems:
  "set (clean_step rooted stack elem) \<subseteq> insert ''..'' (insert elem (set stack))"
  by (cases stack) (auto simp: clean_step_def)

lemma foldl_clean_step_elems:
  "set (foldl (clean_step rooted) stack elems) \<subseteq> insert ''..'' (set stack \<union> set elems)"
proof (induction elems arbitrary: stack)
  case Nil
  then show ?case by auto
next
  case (Cons e elems)
  from Cons.IH [of "clean_step rooted stack e"] clean_step_elems [of rooted stack e]
  show ?case by auto
qed

lemma clean_step_proper:
  "proper_name name \<Longrightarrow> clean_step rooted stack name = name # stack"
  by (simp add: clean_step_def proper_name_def)

lemma Clean_child_neq:
  assumes "proper_name name" and "root \<noteq> []"
  shows "Clean (root @ CHR ''/'' # name) \<noteq> root"
proof
  assume eq: "Clean (root @ CHR ''/'' # name) = root"
  define rooted where "rooted = (hd root = CHR ''/'')"
  define stack where "stack = foldl (clean_step rooted) [] (split_path root)"
  define xs where "xs = rev stack @ [name]"
  from assms(1) have free: "CHR ''/'' \<notin> set name" and ne: "name \<noteq> []"
    by (simp_all add: proper_name_def)
  have st: "settled rooted stack"
    unfolding stack_def by (rule settled_foldl) simp
  have "foldl (clean_step rooted) [] (split_path (root @ CHR ''/'' # name))
      = clean_step rooted stack name"
    by (simp add: split_path_last [OF free] stack_def)
  then have all: "foldl (clean_step rooted) [] (split_path (root @ CHR ''/'' # name)) = name # stack"
    by (simp add: clean_step_proper [OF assms(1)])
  have "hd (root @ CHR ''/'' # name) = hd root"
    using assms(2) by simp
  then have "Clean (root @ CHR ''/'' # name)
      = rendered rooted (foldl (clean_step rooted) [] (split_path (root @ CHR ''/'' # name)))"
    by (simp add: Clean_def Let_def rooted_def)
  with all eq have r: "root = rendered rooted (name # stack)"
    by simp
  have "join_sep xs \<noteq> []"
    using ne by (intro join_sep_not_Nil [of name]) (simp_all add: xs_def)
  with r have root: "root = (if rooted then CHR ''/'' # join_sep xs else join_sep xs)"
    by (simp add: rendered_def xs_def)
  have "\<forall>x \<in> set stack. CHR ''/'' \<notin> set x"
  proof
    fix x assume "x \<in> set stack"
    with foldl_clean_step_elems [of rooted "[]" "split_path root"]
    have "x = ''..'' \<or> x \<in> set (split_path root)"
      by (auto simp: stack_def)
    then show "CHR ''/'' \<notin> set x"
    proof
      assume "x = ''..''"
      then show ?thesis by simp
    next
      assume "x \<in> set (split_path root)"
      then show ?thesis by (rule split_path_free)
    qed
  qed
  with free have xs_free: "\<forall>x \<in> set xs. CHR ''/'' \<notin> set x"
    by (simp add: xs_def)
  have xs_ne: "xs \<noteq> []" by (simp add: xs_def)
  have sj: "split_path (join_sep xs) = xs"
    using xs_ne xs_free by (rule split_join_sep)
  have sp: "foldl (clean_step rooted) [] (split_path root) = foldl (clean_step rooted) [] xs"
  proof (cases rooted)
    case True
    with root have "root = CHR ''/'' # join_sep xs" by simp
    then have "split_path root = [] # xs"
      by (simp add: sj)
    then show ?thesis
      by (simp add: clean_step_def)
  next
    case False
    with root have "split_path root = xs" by (simp add: sj)
    then show ?thesis by simp
  qed
  have "foldl (clean_step rooted) [] xs = clean_step rooted stack name"
    by (simp add: xs_def replay_settled [OF st])
  then have "foldl (clean_step rooted) [] xs = name # stack"
    by (simp add: clean_step_proper [OF assms(1)])
  with sp have "stack = name # stack"
    by (simp add: stack_def)
  then show False by simp
qed

lemma Clean_proper: 
  assumes "proper_name name"
  shows "Clean name = name"
proof -
  from assms have free: "CHR ''/'' \<notin> set name" and ne: "name \<noteq> []"
    by (simp_all add: proper_name_def)
  from ne free have h: "hd name \<noteq> CHR ''/''"
    by (cases name) auto
  have "foldl (clean_step False) [] (split_path name) = [name]"
    by (simp add: split_path_whole [OF free] clean_step_proper [OF assms])
  with ne h show ?thesis
    by (simp add: Clean_def rendered_def)
qed

lemma Join_neq:
  assumes "proper_name name"
  shows "Join root name \<noteq> root"
proof (cases "root = []")
  case True
  from assms have "name \<noteq> []"
    by (simp add: proper_name_def)
  with True Clean_proper [OF assms] show ?thesis
    by (simp add: Join_def)
next
  case False
  with Clean_child_neq [OF assms False] show ?thesis
    by (simp add: Join_def)
qed

text \<open>
  A file found below a directory has a path that \<open>Join\<close> builds from the path of the
  directory and names of the tree, those on the way down.
\<close>

lemma files_at_under:
  "(dirs, r) \<in> set (files_at path name nd) \<Longrightarrow>
     (\<exists>names. set names \<subseteq> names_at nd \<and> Path r = foldl Join path names)
     \<and> (\<forall>d \<in> set dirs. \<exists>names. names \<noteq> [] \<and> set names \<subseteq> names_at nd
            \<and> Path r = foldl Join d names)"
  and files_in_under:
  "(dirs, r) \<in> set (files_in path es) \<Longrightarrow>
     (\<exists>names. names \<noteq> [] \<and> set names \<subseteq> names_in es \<and> Path r = foldl Join path names)
     \<and> (\<forall>d \<in> set dirs. \<exists>names. names \<noteq> [] \<and> set names \<subseteq> names_in es
            \<and> Path r = foldl Join d names)"
proof (induction path name nd and path es arbitrary: dirs r and dirs r rule: files_at_files_in.induct)
  case (1 path name sz mt)
  then have "Path r = foldl Join path []" and "dirs = []"
    by simp_all
  then have "set [] \<subseteq> names_at (File sz mt) \<and> Path r = foldl Join path []" and "dirs = []"
    by simp_all
  then show ?case by (metis empty_iff list.set(1))
next
  case (2 path name sz mt)
  then show ?case by simp
next
  case (3 path name sz mt entries)
  from 3(2) obtain ds where d: "dirs = path # ds" and m: "(ds, r) \<in> set (files_in path entries)"
    by auto
  from 3(1) [OF m] d show ?case by auto
next
  case (4 path)
  then show ?case by simp
next
  case (5 path name rest)
  from 5(1) [of dirs r] 5(2) have
    a: "\<exists>names. names \<noteq> [] \<and> set names \<subseteq> names_in rest \<and> Path r = foldl Join path names"
    and b: "\<forall>d \<in> set dirs. \<exists>names. names \<noteq> [] \<and> set names \<subseteq> names_in rest
            \<and> Path r = foldl Join d names"
    by simp_all
  have s: "names_in rest \<subseteq> names_in ((name, None) # rest)" by auto
  from a s have a': "\<exists>names. names \<noteq> [] \<and> set names \<subseteq> names_in ((name, None) # rest)
      \<and> Path r = foldl Join path names"
    by (meson subset_trans)
  from b s have "\<forall>d \<in> set dirs. \<exists>names. names \<noteq> [] \<and> set names \<subseteq> names_in ((name, None) # rest)
            \<and> Path r = foldl Join d names"
    by (meson subset_trans)
  with a' show ?case by blast
next
  case (6 path name child rest)
  have s1: "names_at child \<subseteq> names_in ((name, Some child) # rest)"
    and s2: "names_in rest \<subseteq> names_in ((name, Some child) # rest)"
    and s3: "name \<in> names_in ((name, Some child) # rest)"
    by auto
  from 6(3) consider "(dirs, r) \<in> set (files_at (Join path name) name child)"
    | "(dirs, r) \<in> set (files_in path rest)"
    by auto
  then show ?case
  proof cases
    case 1
    with 6(1) obtain names where a: "Path r = foldl Join (Join path name) names"
      and a2: "set names \<subseteq> names_at child"
      and b: "\<forall>d \<in> set dirs. \<exists>names. names \<noteq> [] \<and> set names \<subseteq> names_at child
           \<and> Path r = foldl Join d names"
      by blast
    from a a2 s1 s3 have "name # names \<noteq> [] \<and> set (name # names) \<subseteq> names_in ((name, Some child) # rest)
         \<and> Path r = foldl Join path (name # names)"
      by auto
    then have a': "\<exists>names. names \<noteq> [] \<and> set names \<subseteq> names_in ((name, Some child) # rest)
        \<and> Path r = foldl Join path names"
      by blast
    from b s1 have "\<forall>d \<in> set dirs. \<exists>names. names \<noteq> [] \<and> set names \<subseteq> names_in ((name, Some child) # rest)
            \<and> Path r = foldl Join d names"
      by (meson subset_trans)
    with a' show ?thesis by blast
  next
    case 2
    with 6(2) have
      a: "\<exists>names. names \<noteq> [] \<and> set names \<subseteq> names_in rest \<and> Path r = foldl Join path names"
      and b: "\<forall>d \<in> set dirs. \<exists>names. names \<noteq> [] \<and> set names \<subseteq> names_in rest
            \<and> Path r = foldl Join d names"
      by blast+
    from a s2 have a': "\<exists>names. names \<noteq> [] \<and> set names \<subseteq> names_in ((name, Some child) # rest)
        \<and> Path r = foldl Join path names"
      by (meson subset_trans)
    from b s2 have "\<forall>d \<in> set dirs. \<exists>names. names \<noteq> [] \<and> set names \<subseteq> names_in ((name, Some child) # rest)
            \<and> Path r = foldl Join d names"
      by (meson subset_trans)
    with a' show ?thesis by blast
  qed
qed

lemma files_in_direct:
  "(dirs, r) \<in> set (files_in path es) \<Longrightarrow>
     (dirs = [] \<and> (\<exists>name sz mt. (name, Some (File sz mt)) \<in> set es
          \<and> r = \<lparr>Path = Join path name, Name = name, Size = sz, ModTime = mt\<rparr>))
     \<or> (\<exists>name rest. name \<in> fst ` set es \<and> dirs = Join path name # rest)"
proof (induction es)
  case Nil
  then show ?case by simp
next
  case (Cons e es)
  obtain name c where e: "e = (name, c)" by (cases e)
  show ?case
  proof (cases c)
    case None
    with e Cons show ?thesis by auto
  next
    case (Some child)
    with e Cons.prems consider "(dirs, r) \<in> set (files_at (Join path name) name child)"
      | "(dirs, r) \<in> set (files_in path es)"
      by auto
    then show ?thesis
    proof cases
      case 1
      then show ?thesis using e Some
        by (cases child) (auto simp: image_iff)
    next
      case 2
      with Cons.IH e show ?thesis by auto
    qed
  qed
qed

text \<open>
  C1. Take a file below the root that the walk reaches (every directory that encloses it
  is entered) and whose name does not start with a dot. \<open>SearchFiles\<close> reports it if
  and only if the matching rule holds: without case sensitivity the name and the pattern
  are both lowered by \<open>strings.ToLower\<close>, which lowers every rune of the string and not
  only ASCII letters; then the name equals the pattern when \<open>ExactMatch\<close> is set, and
  contains it as a contiguous substring otherwise.
\<close>

theorem SearchFiles_reports_iff_match:
  assumes "SearchFiles tbl pattern root opts stat_ok tree = (Inr results, log)"
    and "(dirs, r) \<in> set (files_below root tree)"
    and "\<forall>d \<in> set dirs. enters root opts d"
    and "\<not> HasPrefix (Name r) ''.''"
  shows "r \<in> set results \<longleftrightarrow> matching_rule tbl pattern opts (Name r)"
proof -
  from assms(1) have res: "results = emitted tbl pattern root opts (files_below root tree)"
    by (simp add: SearchFiles_Inr)
  show ?thesis
  proof
    assume "r \<in> set results"
    with res show "matching_rule tbl pattern opts (Name r)"
      by (auto simp: set_emitted kept_def)
  next
    assume "matching_rule tbl pattern opts (Name r)"
    with assms(3,4) have "kept tbl pattern root opts (dirs, r)"
      by (simp add: kept_def)
    with assms(2) res show "r \<in> set results"
      by (auto simp: set_emitted)
  qed
qed

text \<open>
  C2, amended. Every record that \<open>SearchFiles\<close> returns is a file of the searched tree
  none of whose enclosing directories within that tree, the root included, has a base
  name that starts with a dot or is one of \<open>node_modules\<close>, \<open>Library\<close>, \<open>System\<close>,
  \<open>Applications\<close> (the record's path is what \<open>filepath.Join\<close> builds from the path of
  each of these directories and the names listed on the way down); the record's name
  does not start with a dot; and the walk leaves such a directory right after its
  listing, without a call on anything inside it. The directories above the root are not
  examined: a search whose root lies inside such a directory reports the files it finds.
\<close>

theorem SearchFiles_never_reports_skipped:
  assumes "SearchFiles tbl pattern root opts stat_ok tree = (Inr results, log)"
    and "r \<in> set results"
  shows "(\<exists>dirs. (dirs, r) \<in> set (files_below root tree)
            \<and> (\<forall>d \<in> set dirs. (\<exists>names. names \<noteq> [] \<and> set names \<subseteq> names_below tree
                            \<and> Path r = foldl Join d names)
                   \<and> \<not> shouldSkipDirectory d))
         \<and> \<not> HasPrefix (Name r) ''.''
         \<and> (\<forall>d name sz mt entries rs lg. shouldSkipDirectory d \<longrightarrow>
               walk (visit_entry tbl pattern root opts) d (lstat_info name (Dir sz mt entries))
                 (Dir sz mt entries) (rs, lg) = (Some SkipDir, rs, lg @ [ReadDir d]))"
proof -
  from assms(1) have res: "results = emitted tbl pattern root opts (files_below root tree)"
    by (simp add: SearchFiles_Inr)
  with assms(2) obtain dirs where
    m: "(dirs, r) \<in> set (files_below root tree)" and k: "kept tbl pattern root opts (dirs, r)"
    by (auto simp: set_emitted)
  from m have "\<forall>d \<in> set dirs. \<exists>names. names \<noteq> [] \<and> set names \<subseteq> names_below tree
      \<and> Path r = foldl Join d names"
    by (cases tree) (auto simp: files_below_def names_below_def dest: files_at_under)
  with k have "\<forall>d \<in> set dirs. (\<exists>names. names \<noteq> [] \<and> set names \<subseteq> names_below tree
                            \<and> Path r = foldl Join d names)
      \<and> \<not> shouldSkipDirectory d"
    by (simp add: kept_def enters_def)
  with m have a: "\<exists>dirs. (dirs, r) \<in> set (files_below root tree)
            \<and> (\<forall>d \<in> set dirs. (\<exists>names. names \<noteq> [] \<and> set names \<subseteq> names_below tree
                            \<and> Path r = foldl Join d names)
                   \<and> \<not> shouldSkipDirectory d)"
    by blast
  from k have b: "\<not> HasPrefix (Name r) ''.''"
    by (simp add: kept_def)
  have c: "\<forall>d name sz mt entries rs lg. shouldSkipDirectory d \<longrightarrow>
               walk (visit_entry tbl pattern root opts) d (lstat_info name (Dir sz mt entries))
                 (Dir sz mt entries) (rs, lg) = (Some SkipDir, rs, lg @ [ReadDir d])"
    by (simp add: visit_entry_dir enters_def)
  from a b c show ?thesis by blast
qed

text \<open>
  C3. \<open>SearchFiles\<close> fails with \<open>ErrEmptyPattern\<close> exactly when the pattern is empty,
  and has made no system call then; with a pattern that is not empty and a root that
  \<open>os.Stat\<close> rejects it fails with \<open>ErrInvalidPath\<close>, and that \<open>os.Stat\<close> is the only
  system call made: the traversal has not begun.
\<close>

theorem SearchFiles_validation:
  "(fst (SearchFiles tbl pattern root opts stat_ok tree) = Inl ErrEmptyPattern \<longleftrightarrow> pattern = [])
   \<and> (pattern = [] \<longrightarrow> snd (SearchFiles tbl pattern root opts stat_ok tree) = [])
   \<and> (pattern \<noteq> [] \<and> \<not> stat_ok \<longrightarrow>
        SearchFiles tbl pattern root opts stat_ok tree = (Inl ErrInvalidPath, [Stat root]))"
  by (auto simp: SearchFiles_def split: prod.splits option.splits)

text \<open>
  C7. Without \<open>Recursive\<close>, every record returned from a root directory, whatever the
  root path, is a file listed in the root directory itself, and its path is
  \<open>filepath.Join\<close> of the root path and its name; and the walk leaves every directory
  other than the root right after its listing. The names in the listing of the root are
  names of directory entries: not empty, not \<open>.\<close> or \<open>..\<close>, without a separator.
\<close>

theorem SearchFiles_not_recursive:
  assumes "\<not> Recursive opts"
    and "SearchFiles tbl pattern root opts stat_ok (Some (Dir sz mt entries)) = (Inr results, log)"
    and "\<forall>name \<in> fst ` set entries. proper_name name"
    and "r \<in> set results"
  shows "(\<exists>name sz' mt'. (name, Some (File sz' mt')) \<in> set entries
            \<and> r = \<lparr>Path = Join root name, Name = name, Size = sz', ModTime = mt'\<rparr>)
         \<and> (\<forall>d name sz mt entries rs lg. d \<noteq> root \<longrightarrow>
               walk (visit_entry tbl pattern root opts) d (lstat_info name (Dir sz mt entries))
                 (Dir sz mt entries) (rs, lg) = (Some SkipDir, rs, lg @ [ReadDir d]))"
proof -
  from assms(2) have res: "results = emitted tbl pattern root opts
      (files_below root (Some (Dir sz mt entries)))"
    by (simp add: SearchFiles_Inr)
  with assms(4) obtain dirs where
    m: "(dirs, r) \<in> set (files_in root entries)"
    and k: "kept tbl pattern root opts (root # dirs, r)"
    by (auto simp: set_emitted files_below_def)
  from k assms(1) have all_root: "\<forall>d \<in> set dirs. d = root"
    by (auto simp: kept_def enters_def)
  from files_in_direct [OF m] have
    "\<exists>name sz' mt'. (name, Some (File sz' mt')) \<in> set entries
            \<and> r = \<lparr>Path = Join root name, Name = name, Size = sz', ModTime = mt'\<rparr>"
  proof
    assume "dirs = [] \<and> (\<exists>name sz mt. (name, Some (File sz mt)) \<in> set entries
          \<and> r = \<lparr>Path = Join root name, Name = name, Size = sz, ModTime = mt\<rparr>)"
    then show ?thesis by blast
  next
    assume "\<exists>name rest. name \<in> fst ` set entries \<and> dirs = Join root name # rest"
    then obtain name rest where n: "name \<in> fst ` set entries" and d: "dirs = Join root name # rest"
      by blast
    from n assms(3) have "proper_name name" by blast
    then have "Join root name \<noteq> root" by (rule Join_neq)
    with d all_root show ?thesis by simp
  qed
  moreover have "\<forall>d name sz mt entries rs lg. d \<noteq> root \<longrightarrow>
               walk (visit_entry tbl pattern root opts) d (lstat_info name (Dir sz mt entries))
                 (Dir sz mt entries) (rs, lg) = (Some SkipDir, rs, lg @ [ReadDir d])"
    using assms(1) by (simp add: visit_entry_dir enters_def)
  ultimately show ?thesis by blast
qed

text \<open>
  C9, amended. If the base name of the root directory starts with a dot or is one of
  \<open>node_modules\<close>, \<open>Library\<close>, \<open>System\<close>, \<open>Applications\<close>, then for every pattern that is
  not empty and every configuration \<open>SearchFiles\<close> returns no record and no error, and
  touches nothing below the root. (With the empty pattern it returns \<open>ErrEmptyPattern\<close>.)
\<close>

theorem SearchFiles_skipped_root:
  assumes "pattern \<noteq> []" and "stat_ok" and "is_dir nd" and "shouldSkipDirectory root"
  shows "SearchFiles tbl pattern root opts stat_ok (Some nd)
           = (Inr [], [Stat root, Lstat root, ReadDir root])"
proof (cases nd)
  case (File sz mt)
  with assms(3) show ?thesis by (simp add: is_dir_def)
next
  case (Dir sz mt entries)
  with assms show ?thesis
    by (simp add: SearchFiles_def Walk_def visit_entry_dir enters_def)
next
  case (Unreadable sz mt)
  with assms show ?thesis
    by (simp add: SearchFiles_def Walk_def visit_entry_def)
qed

lemma files_readable:
  "files_at path name (readable nd) = files_at path name nd"
  and files_readable_entries:
  "files_in path (readable_entries es) = files_in path es"
proof (induction path name nd and path es rule: files_at_files_in.induct)
  case (6 path name child rest)
  then show ?case by (cases child) simp_all
qed simp_all

text \<open>
  C6, amended. Whatever entries of the tree fail to be read (\<open>os.Lstat\<close> fails on them,
  for want of permission or because they vanished after the listing, or they are
  directories whose listing fails), \<open>SearchFiles\<close> with a valid pattern and root returns
  no error, and returns exactly the records it returns on the tree without those
  entries: the failures are swallowed and the readable siblings are still searched. A
  symbolic link whose target is missing is not among these entries: \<open>os.Lstat\<close> succeeds
  on it, and it is matched by its name like any file.
\<close>

theorem SearchFiles_swallows_access_errors:
  assumes "pattern \<noteq> []" and "stat_ok"
  shows "\<exists>results log log'.
           SearchFiles tbl pattern root opts stat_ok tree = (Inr results, log)
         \<and> SearchFiles tbl pattern root opts stat_ok (map_option readable tree) = (Inr results, log')"
proof -
  have "files_below root (map_option readable tree) = files_below root tree"
    by (cases tree) (simp_all add: files_below_def files_readable)
  with SearchFiles_results [OF assms, of tbl root opts tree]
    SearchFiles_results [OF assms, of tbl root opts "map_option readable tree"]
  show ?thesis by auto
qed

subsection \<open>The search on the example trees\<close>

lemmas char_eval = byte_def chr_def char_of_def bit_iff_odd_drop_bit drop_bit_eq_div

lemma lower_name: "ToLower cyrillic_lower name_F_TXT = [CHR 0xD1, CHR 0x84] @ ''.txt''"
  by (simp add: ToLower_def name_F_TXT_def string_of_runes_def DecodeRune_def EncodeRune_def
      unicode_ToLower_def cyrillic_lower_def char_eval)

lemma lower_pattern: "ToLower cyrillic_lower pattern_f_t = pattern_f_t"
  by (simp add: ToLower_def pattern_f_t_def string_of_runes_def DecodeRune_def EncodeRune_def
      unicode_ToLower_def cyrillic_lower_def char_eval)

lemma contains_ex: "Contains ([CHR 0xD1, CHR 0x84] @ ''.txt'') pattern_f_t"
  by (simp add: pattern_f_t_def HasPrefix_def)

lemma not_hidden: "\<not> HasPrefix name_F_TXT ''.''"
  by (simp add: name_F_TXT_def HasPrefix_def)

lemma data_not_skipped: "\<not> shouldSkipDirectory ''/data''"
  by (simp add: shouldSkipDirectory_def Base_def HasPrefix_def)

lemmas Join_eval = Join_def Clean_def rendered_def clean_step_def Let_def

lemma join_data: "Join ''/data'' name_F_TXT = ''/data/'' @ name_F_TXT"
  by (simp add: Join_eval name_F_TXT_def)

lemma matching_rule_Contains:
  "matching_rule tbl pattern opts name =
     (if ExactMatch opts
      then (if CaseSensitive opts then name = pattern else ToLower tbl name = ToLower tbl pattern)
      else (if CaseSensitive opts then Contains name pattern
            else Contains (ToLower tbl name) (ToLower tbl pattern)))"
  by (simp add: matching_rule_def Contains_iff)

lemma files_data: "files_below ''/data'' (Some data_dir) = [([''/data''], record_F_TXT)]"
  by (simp add: files_below_def data_dir_def record_F_TXT_def join_data)

lemma matches_ex: "matching_rule cyrillic_lower pattern_f_t insensitive name_F_TXT"
  by (simp add: matching_rule_Contains insensitive_def lower_name lower_pattern contains_ex
      del: append.simps)

lemma enters_data: "enters ''/data'' insensitive ''/data''"
  by (simp add: enters_def data_not_skipped)

lemma run: "fst (SearchFiles cyrillic_lower pattern_f_t ''/data'' insensitive True (Some data_dir)) =
      Inr [record_F_TXT]"
proof -
  have p: "pattern_f_t \<noteq> []" by (simp add: pattern_f_t_def)
  have "emitted cyrillic_lower pattern_f_t ''/data'' insensitive
          (files_below ''/data'' (Some data_dir)) = [record_F_TXT]"
    by (simp add: files_data emitted_def kept_def enters_data matches_ex not_hidden record_F_TXT_def)
  with SearchFiles_results [OF p, of True cyrillic_lower "''/data''" insensitive "Some data_dir"]
  show ?thesis by auto
qed

theorem SearchFiles_reports_iff_match_witness:
  "fst (SearchFiles cyrillic_lower pattern_f_t ''/data'' insensitive True (Some data_dir))
     = Inr [record_F_TXT]
   \<and> ([''/data''], record_F_TXT) \<in> set (files_below ''/data'' (Some data_dir))
   \<and> enters ''/data'' insensitive ''/data''
   \<and> \<not> HasPrefix (Name record_F_TXT) ''.''
   \<and> matching_rule cyrillic_lower pattern_f_t insensitive (Name record_F_TXT)"
proof -
  have h1: "SearchFiles cyrillic_lower pattern_f_t ''/data'' insensitive True (Some data_dir)
      = (Inr [record_F_TXT],
         snd (SearchFiles cyrillic_lower pattern_f_t ''/data'' insensitive True (Some data_dir)))"
    using run by (simp add: prod_eq_iff)
  have h2: "([''/data''], record_F_TXT) \<in> set (files_below ''/data'' (Some data_dir))"
    by (simp add: files_data)
  have h3: "\<forall>d \<in> set [''/data'']. enters ''/data'' insensitive d"
    by (simp add: enters_data)
  have h4: "\<not> HasPrefix (Name record_F_TXT) ''.''"
    by (simp add: record_F_TXT_def not_hidden)
  from SearchFiles_reports_iff_match [OF h1 h2 h3 h4]
  have "matching_rule cyrillic_lower pattern_f_t insensitive (Name record_F_TXT)"
    by simp
  with run h2 h4 enters_data show ?thesis by blast
qed

lemma join_home:
  "Join ''/home/u'' ''.git'' = ''/home/u/.git''"
  "Join ''/home/u/.git'' ''config-2024'' = ''/home/u/.git/config-2024''"
  "Join ''/home/u'' ''Documents'' = ''/home/u/Documents''"
  "Join ''/home/u/Documents'' ''report-2024.pdf'' = ''/home/u/Documents/report-2024.pdf''"
  "Join ''/home/u'' ''notes-2024.txt'' = ''/home/u/notes-2024.txt''"
  by (simp_all add: Join_eval)

text \<open>A root written with a trailing or a doubled separator, or with dots, is cleaned.\<close>

lemma join_unclean:
  "Join ''/home/u/'' ''notes-2024.txt'' = ''/home/u/notes-2024.txt''"
  "Join ''/home//u'' ''notes-2024.txt'' = ''/home/u/notes-2024.txt''"
  "Join ''/home/./u/../u'' ''notes-2024.txt'' = ''/home/u/notes-2024.txt''"
  "Join ''.'' ''notes-2024.txt'' = ''notes-2024.txt''"
  "Join ''../u'' ''notes-2024.txt'' = ''../u/notes-2024.txt''"
  "Join ''/'' ''notes-2024.txt'' = ''/notes-2024.txt''"
  by (simp_all add: Join_eval)

lemma files_home:
  "files_below ''/home/u'' (Some home_dir) =
     [([''/home/u'', ''/home/u/.git''], config_record),
      ([''/home/u'', ''/home/u/Documents''], report_record),
      ([''/home/u''], notes_record)]"
  by (simp add: files_below_def home_dir_def home_entries_def join_home config_record_def
      report_record_def notes_record_def)

lemma skip_home:
  "\<not> shouldSkipDirectory ''/home/u''" "shouldSkipDirectory ''/home/u/.git''"
  "\<not> shouldSkipDirectory ''/home/u/Documents''"
  by (simp_all add: shouldSkipDirectory_def Base_def HasPrefix_def)

lemma kept_home:
  "kept id ''2024'' ''/home/u'' sensitive ([''/home/u'', ''/home/u/Documents''], report_record)"
  "kept id ''2024'' ''/home/u'' sensitive ([''/home/u''], notes_record)"
  "\<not> kept id ''2024'' ''/home/u'' sensitive ([''/home/u'', ''/home/u/.git''], config_record)"
  by (simp_all add: kept_def enters_def skip_home sensitive_def matching_rule_Contains
      report_record_def notes_record_def HasPrefix_def)

lemma kept_home_flat:
  "\<not> kept id ''2024'' ''/home/u'' flat ([''/home/u'', ''/home/u/Documents''], report_record)"
  "kept id ''2024'' ''/home/u'' flat ([''/home/u''], notes_record)"
  "\<not> kept id ''2024'' ''/home/u'' flat ([''/home/u'', ''/home/u/.git''], config_record)"
  by (simp_all add: kept_def enters_def skip_home flat_def matching_rule_Contains
      report_record_def notes_record_def HasPrefix_def)

lemma search_home:
  "fst (SearchFiles id ''2024'' ''/home/u'' sensitive True (Some home_dir))
     = Inr [report_record, notes_record]"
proof -
  have "emitted id ''2024'' ''/home/u'' sensitive (files_below ''/home/u'' (Some home_dir))
          = [report_record, notes_record]"
    by (simp add: files_home emitted_def kept_home)
  with SearchFiles_results [of "''2024''" True id "''/home/u''" sensitive "Some home_dir"]
  show ?thesis by auto
qed

lemma search_home_flat:
  "fst (SearchFiles id ''2024'' ''/home/u'' flat True (Some home_dir)) = Inr [notes_record]"
proof -
  have "emitted id ''2024'' ''/home/u'' flat (files_below ''/home/u'' (Some home_dir))
          = [notes_record]"
    by (simp add: files_home emitted_def kept_home_flat)
  with SearchFiles_results [of "''2024''" True id "''/home/u''" flat "Some home_dir"]
  show ?thesis by auto
qed

theorem SearchFiles_never_reports_skipped_witness:
  "fst (SearchFiles id ''2024'' ''/home/u'' sensitive True (Some home_dir))
     = Inr [report_record, notes_record]
   \<and> report_record \<in> set [report_record, notes_record]
   \<and> (\<exists>dirs. (dirs, report_record) \<in> set (files_below ''/home/u'' (Some home_dir))
         \<and> (\<forall>d \<in> set dirs. (\<exists>names. names \<noteq> [] \<and> set names \<subseteq> names_below (Some home_dir)
                     \<and> Path report_record = foldl Join d names)
                \<and> \<not> shouldSkipDirectory d))
   \<and> \<not> HasPrefix (Name report_record) ''.''
   \<and> shouldSkipDirectory ''/home/u/.git''
   \<and> walk (visit_entry id ''2024'' ''/home/u'' sensitive) ''/home/u/.git''
        (lstat_info ''.git'' (Dir 4096 stamp [(''config-2024'', Some (File 92 stamp))]))
        (Dir 4096 stamp [(''config-2024'', Some (File 92 stamp))]) ([], [])
      = (Some SkipDir, [], [ReadDir ''/home/u/.git''])"
proof -
  have h1: "SearchFiles id ''2024'' ''/home/u'' sensitive True (Some home_dir)
      = (Inr [report_record, notes_record],
         snd (SearchFiles id ''2024'' ''/home/u'' sensitive True (Some home_dir)))"
    using search_home by (simp add: prod_eq_iff)
  have h2: "report_record \<in> set [report_record, notes_record]"
    by simp
  from SearchFiles_never_reports_skipped [OF h1 h2] skip_home(2) search_home h2
  show ?thesis by simp
qed

theorem SearchFiles_swallows_access_errors_witness:
  "''2024'' \<noteq> []
   \<and> fst (SearchFiles id ''2024'' ''/home/u'' sensitive True (Some home_dir))
       = Inr [report_record, notes_record]
   \<and> fst (SearchFiles id ''2024'' ''/home/u'' sensitive True (map_option readable (Some home_dir)))
       = Inr [report_record, notes_record]
   \<and> readable home_dir = Dir 4096 stamp
        [(''.git'', Some (Dir 4096 stamp [(''config-2024'', Some (File 92 stamp))])),
         (''Documents'', Some (Dir 4096 stamp [(''report-2024.pdf'', Some (File 2048 stamp))])),
         (''notes-2024.txt'', Some (File 1024 stamp))]"
proof -
  have h1: "''2024'' \<noteq> []" by simp
  from SearchFiles_swallows_access_errors [OF h1, of True id "''/home/u''" sensitive "Some home_dir"]
  obtain results log log' where
    a: "SearchFiles id ''2024'' ''/home/u'' sensitive True (Some home_dir) = (Inr results, log)"
    and b: "SearchFiles id ''2024'' ''/home/u'' sensitive True (map_option readable (Some home_dir))
              = (Inr results, log')"
    by auto
  from a search_home have "results = [report_record, notes_record]" by simp
  with a b show ?thesis
    by (simp add: home_dir_def home_entries_def)
qed

theorem SearchFiles_not_recursive_witness:
  "\<not> Recursive flat
   \<and> fst (SearchFiles id ''2024'' ''/home/u'' flat True (Some home_dir)) = Inr [notes_record]
   \<and> map fst home_entries = [''.git'', ''Documents'', ''notes-2024.txt'']
   \<and> (\<exists>name sz' mt'. (name, Some (File sz' mt')) \<in> set home_entries
         \<and> notes_record = \<lparr>Path = Join ''/home/u'' name, Name = name, Size = sz', ModTime = mt'\<rparr>)
   \<and> walk (visit_entry id ''2024'' ''/home/u'' flat) ''/home/u/Documents''
        (lstat_info ''Documents'' (Dir 4096 stamp [(''report-2024.pdf'', Some (File 2048 stamp))]))
        (Dir 4096 stamp [(''report-2024.pdf'', Some (File 2048 stamp))]) ([], [])
      = (Some SkipDir, [], [ReadDir ''/home/u/Documents''])"
proof -
  have h1: "\<not> Recursive flat" by (simp add: flat_def)
  have h2: "SearchFiles id ''2024'' ''/home/u'' flat True (Some (Dir 4096 stamp home_entries))
      = (Inr [notes_record],
         snd (SearchFiles id ''2024'' ''/home/u'' flat True (Some (Dir 4096 stamp home_entries))))"
    using search_home_flat by (simp add: prod_eq_iff home_dir_def)
  have h3: "\<forall>name \<in> fst ` set home_entries. proper_name name"
    by (simp add: home_entries_def proper_name_def)
  have h4: "notes_record \<in> set [notes_record]" by simp
  have h5: "map fst home_entries = [''.git'', ''Documents'', ''notes-2024.txt'']"
    by (simp add: home_entries_def)
  from SearchFiles_not_recursive [OF h1 h2 h3 h4] h1 h5 search_home_flat
  show ?thesis by simp
qed

theorem SearchFiles_skipped_root_witness:
  "''2024'' \<noteq> [] \<and> is_dir home_dir \<and> shouldSkipDirectory ''/home/u/.git''
   \<and> SearchFiles id ''2024'' ''/home/u/.git'' sensitive True (Some home_dir)
       = (Inr [], [Stat ''/home/u/.git'', Lstat ''/home/u/.git'', ReadDir ''/home/u/.git''])"
proof -
  have h1: "''2024'' \<noteq> []" by simp
  have h3: "is_dir home_dir" by (simp add: is_dir_def home_dir_def)
  from SearchFiles_skipped_root [OF h1 _ h3 skip_home(2), of True id sensitive] h1 h3 skip_home(2)
  show ?thesis by simp
qed

theorem SearchFiles_skipped_root_empty_pattern:
  "shouldSkipDirectory ''/home/u/.git'' \<and> is_dir home_dir
   \<and> fst (SearchFiles id [] ''/home/u/.git'' sensitive True (Some home_dir)) = Inl ErrEmptyPattern"
  by (simp add: skip_home is_dir_def home_dir_def SearchFiles_def)

theorem SearchFiles_validation_witness:
  "SearchFiles id [] ''/home/u'' sensitive True (Some home_dir) = (Inl ErrEmptyPattern, [])
   \<and> SearchFiles id ''2024'' ''/home/u'' sensitive False None = (Inl ErrInvalidPath, [Stat ''/home/u''])
   \<and> fst (SearchFiles id ''2024'' ''/home/u'' sensitive True (Some home_dir)) \<noteq> Inl ErrEmptyPattern"
  using SearchFiles_validation [of id "[]" "''/home/u''" sensitive True "Some home_dir"]
    SearchFiles_validation [of id "''2024''" "''/home/u''" sensitive False None]
    SearchFiles_validation [of id "''2024''" "''/home/u''" sensitive True "Some home_dir"]
  by (simp add: prod_eq_iff)

text \<open>
  A root inside a hidden directory: the file is reported, though its path lies inside
  \<open>/home/u/.hidden\<close>, whose base name starts with a dot.
\<close>

lemma search_proj:
  "fst (SearchFiles id ''2024'' ''/home/u/.hidden/proj'' sensitive True (Some proj_dir))
     = Inr [proj_notes_record]"
proof -
  have j: "Join ''/home/u/.hidden/proj'' ''notes-2024.txt'' = ''/home/u/.hidden/proj/notes-2024.txt''"
    by (simp add: Join_eval)
  have f: "files_below ''/home/u/.hidden/proj'' (Some proj_dir)
      = [([''/home/u/.hidden/proj''], proj_notes_record)]"
    by (simp add: files_below_def proj_dir_def proj_notes_record_def j)
  have s: "\<not> shouldSkipDirectory ''/home/u/.hidden/proj''"
    by (simp add: shouldSkipDirectory_def Base_def HasPrefix_def)
  have "kept id ''2024'' ''/home/u/.hidden/proj'' sensitive
          ([''/home/u/.hidden/proj''], proj_notes_record)"
    by (simp add: kept_def enters_def s sensitive_def matching_rule_Contains
        proj_notes_record_def HasPrefix_def)
  then have "emitted id ''2024'' ''/home/u/.hidden/proj'' sensitive
          (files_below ''/home/u/.hidden/proj'' (Some proj_dir)) = [proj_notes_record]"
    by (simp add: f emitted_def)
  with SearchFiles_results [of "''2024''" True id "''/home/u/.hidden/proj''" sensitive
      "Some proj_dir"]
  show ?thesis by auto
qed

theorem SearchFiles_root_inside_hidden:
  "fst (SearchFiles id ''2024'' ''/home/u/.hidden/proj'' sensitive True (Some proj_dir))
     = Inr [proj_notes_record]
   \<and> Path proj_notes_record = Join (Join ''/home/u/.hidden'' ''proj'') ''notes-2024.txt''
   \<and> shouldSkipDirectory ''/home/u/.hidden''"
proof -
  have "Join (Join ''/home/u/.hidden'' ''proj'') ''notes-2024.txt''
      = ''/home/u/.hidden/proj/notes-2024.txt''"
    by (simp add: Join_eval)
  moreover have "shouldSkipDirectory ''/home/u/.hidden''"
    by (simp add: shouldSkipDirectory_def Base_def HasPrefix_def)
  ultimately show ?thesis
    using search_proj by (simp add: proj_notes_record_def)
qed

text \<open>
  A symbolic link whose target is missing is no access error for the walk: \<open>os.Lstat\<close>
  reads the link itself, and the link is matched by its name like any file.
\<close>

lemma search_link:
  "fst (SearchFiles id ''2024'' ''/home/u'' sensitive True (Some link_dir)) = Inr [dangling_record]"
proof -
  have j: "Join ''/home/u'' ''dangling-2024'' = ''/home/u/dangling-2024''"
    by (simp add: Join_eval)
  have f: "files_below ''/home/u'' (Some link_dir) = [([''/home/u''], dangling_record)]"
    by (simp add: files_below_def link_dir_def broken_symlink_def dangling_record_def j)
  have "kept id ''2024'' ''/home/u'' sensitive ([''/home/u''], dangling_record)"
    by (simp add: kept_def enters_def skip_home sensitive_def matching_rule_Contains
        dangling_record_def HasPrefix_def)
  then have "emitted id ''2024'' ''/home/u'' sensitive (files_below ''/home/u'' (Some link_dir))
      = [dangling_record]"
    by (simp add: f emitted_def)
  with SearchFiles_results [of "''2024''" True id "''/home/u''" sensitive "Some link_dir"]
  show ?thesis by auto
qed

theorem SearchFiles_reports_broken_symlink:
  "link_dir = Dir 4096 stamp [(''dangling-2024'', Some (broken_symlink 11 stamp))]
   \<and> fst (SearchFiles id ''2024'' ''/home/u'' sensitive True (Some link_dir)) = Inr [dangling_record]
   \<and> Path dangling_record = ''/home/u/dangling-2024''
   \<and> Name dangling_record = ''dangling-2024''"
  using search_link by (simp add: link_dir_def dangling_record_def)

subsection \<open>PrintResults: the sort\<close>

lemma mset_sink: "mset (sink lt x ys) = add_mset x (mset ys)"
  by (induction ys) simp_all

lemma mset_foldl_sink: "mset (foldl (\<lambda>acc x. sink lt x acc) acc xs) = mset acc + mset xs"
  by (induction xs arbitrary: acc) (simp_all add: mset_sink)

lemma mset_sort_Slice: "mset (sort_Slice lt xs) = mset xs"
  by (simp add: sort_Slice_def mset_foldl_sink)

lemma set_sink: "set (sink lt x ys) = insert x (set ys)"
  by (induction ys) auto

text \<open>The part already sorted is held in reverse, so it descends.\<close>

lemma descending_sink:
  fixes key :: "'a \<Rightarrow> 'k::linorder"
  assumes "sorted_wrt (\<lambda>a b. key b \<le> key a) ys"
  shows "sorted_wrt (\<lambda>a b. key b \<le> key a) (sink (\<lambda>a b. key a < key b) x ys)"
  using assms
proof (induction ys)
  case Nil
  then show ?case by simp
next
  case (Cons y ys)
  show ?case
  proof (cases "key x < key y")
    case True
    with Cons show ?thesis
      by (auto simp: set_sink)
  next
    case False
    with Cons.prems show ?thesis
      by auto
  qed
qed

lemma descending_foldl_sink:
  fixes key :: "'a \<Rightarrow> 'k::linorder"
  assumes "sorted_wrt (\<lambda>a b. key b \<le> key a) acc"
  shows "sorted_wrt (\<lambda>a b. key b \<le> key a)
           (foldl (\<lambda>acc x. sink (\<lambda>a b. key a < key b) x acc) acc xs)"
  using assms by (induction xs arbitrary: acc) (simp_all add: descending_sink)

lemma sorted_sort_Slice:
  fixes key :: "'a \<Rightarrow> 'k::linorder"
  shows "sorted_wrt (\<lambda>a b. key a \<le> key b) (sort_Slice (\<lambda>a b. key a < key b) xs)"
proof -
  have "sorted_wrt (\<lambda>a b. key b \<le> key a)
          (foldl (\<lambda>acc x. sink (\<lambda>a b. key a < key b) x acc) [] xs)"
    by (rule descending_foldl_sink) simp
  then show ?thesis
    by (simp add: sort_Slice_def sorted_wrt_rev)
qed

lemma foldl_total: "foldl (\<lambda>total result. total + Size result) t rs = t + sum_list (map Size rs)"
  by (induction rs arbitrary: t) (simp_all add: add.assoc)

lemma sum_sizes_sorted:
  "sum_list (map Size (sort_Slice lt rs)) = sum_list (map Size rs)"
proof -
  have "mset (map Size (sort_Slice lt rs)) = mset (map Size rs)"
    by (simp add: mset_sort_Slice)
  then show ?thesis
    by (metis sum_mset_sum_list)
qed

text \<open>
  C10. \<open>PrintResults\<close> sorts the slice it is given in place: after the call the
  slice holds the same records, each as often as before and with its fields as they
  were, in ascending order of \<open>Name\<close>.
\<close>

theorem PrintResults_sorts_in_place:
  "mset (snd (PrintResults results)) = mset results
   \<and> sorted_wrt (\<lambda>a b. Name a \<le> Name b) (snd (PrintResults results))"
  by (simp add: PrintResults_def Let_def mset_sort_Slice sorted_sort_Slice)

subsection \<open>truncateString\<close>

lemma runes_Nil_iff: "runes s = [] \<longleftrightarrow> s = []"
  by (cases s) (auto split: prod.splits)

lemma Repeat_dot: "Repeat ''.'' n = replicate n CHR ''.''"
  by (induction n) (simp_all add: Repeat_def)

lemma length_runes_le: "length (runes s) \<le> length s"
proof (induction s rule: runes.induct)
  case 1
  then show ?case by simp
next
  case (2 c cs)
  obtain r w where d: "DecodeRune (c # cs) = (r, w)"
    by (cases "DecodeRune (c # cs)")
  with 2 [of "(r, w)" r w] have "length (runes (drop (w - 1) cs)) \<le> length (drop (w - 1) cs)"
    by simp
  with d show ?case by simp
qed

lemma truncateString_short:
  assumes "int (length s) \<le> maxLen"
  shows "truncateString s maxLen = s"
proof (cases "maxLen \<le> 0")
  case True
  with assms have "length s = 0" by linarith
  with True show ?thesis by (simp add: truncateString_def)
next
  case False
  from assms length_runes_le [of s] have "RuneCountInString s \<le> maxLen"
    by (simp add: RuneCountInString_def)
  with False show ?thesis by (simp add: truncateString_def)
qed

lemma runes_fajl: "runes name_fajl_txt = [0x444, 0x430, 0x439, 0x43B, 0x2E, 0x74, 0x78, 0x74]"
  by (simp add: name_fajl_txt_def DecodeRune_def byte_def)

lemma encode_fa: "string_of_runes [0x444, 0x430] = [CHR 0xD1, CHR 0x84, CHR 0xD0, CHR 0xB0]"
  by (simp add: string_of_runes_def EncodeRune_def char_eval)

lemma truncate_fajl: "truncateString name_fajl_txt 5 = [CHR 0xD1, CHR 0x84, CHR 0xD0, CHR 0xB0] @ ''...''"
  by (simp add: truncateString_def RuneCountInString_def runes_fajl encode_fa)

lemma truncate_bytes_fajl: "truncateString_bytes name_fajl_txt 5 = Inr ([CHR 0xD1, CHR 0x84] @ ''...'')"
  by (simp add: truncateString_bytes_def name_fajl_txt_def)

lemma truncate_bytes_panics: "truncateString_bytes ''test.txt'' 0 = Inl SliceBoundsOutOfRange"
  by (simp add: truncateString_bytes_def)

text \<open>
  C5. \<open>truncateString\<close> counts runes, not bytes: a string of at most \<open>maxLen\<close> runes
  is returned unchanged; otherwise the result is empty for \<open>maxLen \<le> 0\<close>, \<open>maxLen\<close>
  dots for \<open>maxLen \<le> 3\<close>, and else the first \<open>maxLen - 3\<close> runes of the string
  followed by three dots. The Cyrillic name of eight runes and twelve bytes is cut to
  two runes and three dots at \<open>maxLen = 5\<close>.
\<close>

theorem truncateString_counts_runes:
  "truncateString s maxLen =
     (if RuneCountInString s \<le> maxLen then s
      else if maxLen \<le> 0 then []
      else if maxLen \<le> 3 then replicate (nat maxLen) CHR ''.''
      else string_of_runes (take (nat (maxLen - 3)) (runes s)) @ ''...'')
   \<and> truncateString name_fajl_txt 5 = [CHR 0xD1, CHR 0x84, CHR 0xD0, CHR 0xB0] @ ''...''"
proof -
  have "truncateString s maxLen =
     (if RuneCountInString s \<le> maxLen then s
      else if maxLen \<le> 0 then []
      else if maxLen \<le> 3 then replicate (nat maxLen) CHR ''.''
      else string_of_runes (take (nat (maxLen - 3)) (runes s)) @ ''...'')"
  proof (cases "maxLen \<le> 0")
    case True
    show ?thesis
    proof (cases "RuneCountInString s \<le> maxLen")
      case le: True
      with True have "int (length (runes s)) \<le> 0"
        unfolding RuneCountInString_def by linarith
      then have "length (runes s) = 0"
        by linarith
      then have "s = []" by (simp add: runes_Nil_iff)
      with True le show ?thesis by (simp add: truncateString_def)
    next
      case False
      with True show ?thesis by (simp add: truncateString_def)
    qed
  next
    case False
    then show ?thesis by (simp add: truncateString_def Repeat_dot)
  qed
  with truncate_fajl show ?thesis by blast
qed

subsection \<open>PrintResults: the output\<close>

lemma sint_sum_list:
  "sint (sum_list ws :: int64) = wrap64 (sum_list (map sint ws))"
proof -
  have "word_of_int (sum_list (map sint ws)) = (sum_list ws :: int64)"
    by (induction ws) simp_all
  then show ?thesis
    by (simp add: wrap64_def)
qed

lemma PrintResults_nonempty:
  assumes "results \<noteq> []"
  shows "PrintResults results =
     ([Coloured Green
         (newline @ ''Found '' @ fmt_d (int (length results)) @ '' files (Total size: ''
          @ FormatSize (sum_list (map Size results)) @ '')'' @ newline),
       Plain rule_line,
       Coloured Blue (table_row ''NAME'' ''SIZE'' ''MODIFIED'' ''PATH''),
       Plain rule_line]
      @ map (\<lambda>r. Plain (table_row (truncateString (Name r) 47) (FormatSize (Size r))
               (ModTime r) (Path r))) (sort_Slice (\<lambda>a b. Name a < Name b) results)
      @ [Plain rule_line],
      sort_Slice (\<lambda>a b. Name a < Name b) results)"
proof -
  have l: "length (sort_Slice (\<lambda>a b. Name a < Name b) results) = length results"
    by (metis mset_sort_Slice size_mset)
  from assms show ?thesis
    by (simp add: PrintResults_def Let_def foldl_total sum_sizes_sorted l)
qed

text \<open>
  C8. On an empty list \<open>PrintResults\<close> writes the line \<open>No files found\<close> and nothing
  else. On any other list it writes the header \<open>Found N files (Total size: S)\<close>, where
  \<open>N\<close> is the number of records and \<open>S\<close> is \<open>FormatSize\<close> of the sum of the \<open>Size\<close>
  fields in \<open>int64\<close> arithmetic (the true sum wrapped to 64 bits), then the rule, the
  column header and the rule, then one row per record, the records taken in ascending
  order of \<open>Name\<close>, and the closing rule.
\<close>

theorem PrintResults_output:
  "PrintResults [] = ([Coloured Yellow (newline @ ''No files found'' @ newline)], [])
   \<and> (results \<noteq> [] \<longrightarrow>
        (\<exists>rows. mset rows = mset results \<and> sorted_wrt (\<lambda>a b. Name a \<le> Name b) rows
           \<and> fst (PrintResults results) =
               [Coloured Green
                  (newline @ ''Found '' @ fmt_d (int (length results)) @ '' files (Total size: ''
                   @ FormatSize (sum_list (map Size results)) @ '')'' @ newline),
                Plain rule_line,
                Coloured Blue (table_row ''NAME'' ''SIZE'' ''MODIFIED'' ''PATH''),
                Plain rule_line]
               @ map (\<lambda>r. Plain (table_row (truncateString (Name r) 47) (FormatSize (Size r))
                        (ModTime r) (Path r))) rows
               @ [Plain rule_line]))
   \<and> sint (sum_list (map Size results)) = wrap64 (sum_list (map (\<lambda>r. sint (Size r)) results))"
proof -
  have a: "PrintResults [] = ([Coloured Yellow (newline @ ''No files found'' @ newline)], [])"
    by (simp add: PrintResults_def)
  have b: "results \<noteq> [] \<longrightarrow>
        (\<exists>rows. mset rows = mset results \<and> sorted_wrt (\<lambda>a b. Name a \<le> Name b) rows
           \<and> fst (PrintResults results) =
               [Coloured Green
                  (newline @ ''Found '' @ fmt_d (int (length results)) @ '' files (Total size: ''
                   @ FormatSize (sum_list (map Size results)) @ '')'' @ newline),
                Plain rule_line,
                Coloured Blue (table_row ''NAME'' ''SIZE'' ''MODIFIED'' ''PATH''),
                Plain rule_line]
               @ map (\<lambda>r. Plain (table_row (truncateString (Name r) 47) (FormatSize (Size r))
                        (ModTime r) (Path r))) rows
               @ [Plain rule_line])"
  proof
    assume ne: "results \<noteq> []"
    let ?rows = "sort_Slice (\<lambda>a b. Name a < Name b) results"
    have "mset ?rows = mset results"
      by (rule mset_sort_Slice)
    moreover have "sorted_wrt (\<lambda>a b. Name a \<le> Name b) ?rows"
      by (rule sorted_sort_Slice)
    moreover note PrintResults_nonempty [OF ne]
    ultimately show "\<exists>rows. mset rows = mset results \<and> sorted_wrt (\<lambda>a b. Name a \<le> Name b) rows
           \<and> fst (PrintResults results) =
               [Coloured Green
                  (newline @ ''Found '' @ fmt_d (int (length results)) @ '' files (Total size: ''
                   @ FormatSize (sum_list (map Size results)) @ '')'' @ newline),
                Plain rule_line,
                Coloured Blue (table_row ''NAME'' ''SIZE'' ''MODIFIED'' ''PATH''),
                Plain rule_line]
               @ map (\<lambda>r. Plain (table_row (truncateString (Name r) 47) (FormatSize (Size r))
                        (ModTime r) (Path r))) rows
               @ [Plain rule_line]"
      by (intro exI [of _ ?rows]) simp
  qed
  have c: "sint (sum_list (map Size results)) = wrap64 (sum_list (map (\<lambda>r. sint (Size r)) results))"
    using sint_sum_list [of "map Size results"] by (simp add: comp_def)
  from a b c show ?thesis by blast
qed

lemma sort_two: "sort_Slice (\<lambda>a b. Name a < Name b) [file2_record, file1_record]
    = [file1_record, file2_record]"
  by (simp add: sort_Slice_def file1_record_def file2_record_def less_char_def)

lemma truncate_names:
  "truncateString ''file1.txt'' 47 = ''file1.txt''" "truncateString ''file2.txt'' 47 = ''file2.txt''"
  by (simp_all add: truncateString_short)

lemma two_records_printed:
  "fst (PrintResults [file2_record, file1_record]) =
     [Coloured Green (newline @ ''Found 2 files (Total size: 3.0 KB)'' @ newline),
      Plain rule_line,
      Coloured Blue (table_row ''NAME'' ''SIZE'' ''MODIFIED'' ''PATH''),
      Plain rule_line,
      Plain (table_row ''file1.txt'' ''1.0 KB'' ''2024-03-20 10:00:00'' ''/path/to/file1.txt''),
      Plain (table_row ''file2.txt'' ''2.0 KB'' ''2024-03-20 11:00:00'' ''/path/to/file2.txt''),
      Plain rule_line]"
proof -
  have s: "sum_list (map Size [file2_record, file1_record]) = 3072"
    by (simp add: file1_record_def file2_record_def)
  have n: "fmt_d (int (length [file2_record, file1_record])) = ''2''"
    by (simp add: fmt_eval)
  have f: "Size file1_record = 1024" "Size file2_record = 2048"
    "Name file1_record = ''file1.txt''" "Name file2_record = ''file2.txt''"
    "ModTime file1_record = ''2024-03-20 10:00:00''" "ModTime file2_record = ''2024-03-20 11:00:00''"
    "Path file1_record = ''/path/to/file1.txt''" "Path file2_record = ''/path/to/file2.txt''"
    by (simp_all add: file1_record_def file2_record_def)
  have "[file2_record, file1_record] \<noteq> []" by simp
  from PrintResults_nonempty [OF this] show ?thesis
    unfolding sort_two s n
    by (simp add: f FormatSize_3072 FormatSize_1024 FormatSize_2048 truncate_names)
qed

theorem PrintResults_output_witness:
  "[file2_record, file1_record] \<noteq> []
   \<and> fst (PrintResults [file2_record, file1_record]) =
     [Coloured Green (newline @ ''Found 2 files (Total size: 3.0 KB)'' @ newline),
      Plain rule_line,
      Coloured Blue (table_row ''NAME'' ''SIZE'' ''MODIFIED'' ''PATH''),
      Plain rule_line,
      Plain (table_row ''file1.txt'' ''1.0 KB'' ''2024-03-20 10:00:00'' ''/path/to/file1.txt''),
      Plain (table_row ''file2.txt'' ''2.0 KB'' ''2024-03-20 11:00:00'' ''/path/to/file2.txt''),
      Plain rule_line]
   \<and> (\<exists>rows. mset rows = mset [file2_record, file1_record]
         \<and> sorted_wrt (\<lambda>a b. Name a \<le> Name b) rows
         \<and> fst (PrintResults [file2_record, file1_record]) =
               [Coloured Green
                  (newline @ ''Found '' @ fmt_d (int (length [file2_record, file1_record]))
                   @ '' files (Total size: ''
                   @ FormatSize (sum_list (map Size [file2_record, file1_record])) @ '')'' @ newline),
                Plain rule_line,
                Coloured Blue (table_row ''NAME'' ''SIZE'' ''MODIFIED'' ''PATH''),
                Plain rule_line]
               @ map (\<lambda>r. Plain (table_row (truncateString (Name r) 47) (FormatSize (Size r))
                        (ModTime r) (Path r))) rows
               @ [Plain rule_line])"
proof -
  have h: "[file2_record, file1_record] \<noteq> []" by simp
  from PrintResults_output [of "[file2_record, file1_record]"] h two_records_printed
  show ?thesis by blast
qed

subsection \<open>FormatSize: the unit index\<close>

lemma FormatSize_loop_exp:
  "n < 1024 ^ Suc k \<Longrightarrow> snd (FormatSize_loop n dv e) \<le> e + k"
proof (induction k arbitrary: n dv e)
  case 0
  then show ?case by (simp add: FormatSize_loop.simps)
next
  case (Suc k)
  show ?case
  proof (cases "1024 \<le> n")
    case True
    then have q: "quo n 1024 = n div 1024"
      by (simp add: quo_def)
    have d: "\<And>x :: int. n < 1024 * x \<Longrightarrow> n div 1024 < x"
      by presburger
    from Suc.prems have "n div 1024 < 1024 ^ Suc k"
      by (intro d) simp
    with q Suc.IH [of "quo n 1024" "wrap64 (dv * 1024)" "e + 1"]
    have "snd (FormatSize_loop (quo n 1024) (wrap64 (dv * 1024)) (e + 1)) \<le> e + 1 + k"
      by simp
    with True show ?thesis
      by (subst FormatSize_loop.simps) simp
  next
    case False
    then show ?thesis by (simp add: FormatSize_loop.simps)
  qed
qed

text \<open>
  The index into \<open>KMGTPE\<close> is in range for every \<open>int64\<close>: the quotient that enters the
  loop is below \<open>2^53\<close>, so the loop runs at most five times.
\<close>

lemma FormatSize_unit_in_range:
  assumes "1024 \<le> m" and "m < 2 ^ 63"
  shows "snd (FormatSize_loop (quo m 1024) 1024 0) < length ''KMGTPE''"
proof -
  from assms(1) have q: "quo m 1024 = m div 1024"
    by (simp add: quo_def)
  from assms(2) have "m div 1024 < 1024 ^ Suc 5"
    by simp
  with q FormatSize_loop_exp [of "quo m 1024" 5 1024 0] show ?thesis
    by simp
qed

subsection \<open>The two revisions of the search\<close>

text \<open>The two callbacks test the same conditions in a different order.\<close>

lemma visit_entry_skip_first_eq:
  "visit_entry_skip_first tbl pattern root opts = visit_entry tbl pattern root opts"
  by (intro ext) (auto simp add: visit_entry_skip_first_def visit_entry_def split: visit.splits)

text \<open>
  The revision without validation reports no error for the empty pattern or for a root
  that does not exist.
\<close>

lemma SearchFiles_unvalidated_missing_root:
  "SearchFiles_unvalidated tbl pattern root opts None = (([], None), [Lstat root])"
  by (simp add: SearchFiles_unvalidated_def Walk_def visit_entry_skip_first_def)

lemma SearchFiles_unvalidated_no_error:
  "snd (fst (SearchFiles_unvalidated tbl pattern root opts tree)) = None"
proof (cases tree)
  case None
  then show ?thesis by (simp add: SearchFiles_unvalidated_missing_root)
next
  case (Some nd)
  from walk_emitted [of tbl pattern root opts root "Base root" nd]
  have "\<exists>e lg'. walk (visit_entry tbl pattern root opts) root (lstat_info (Base root) nd) nd
          ([], [Lstat root])
        = (e, [] @ emitted tbl pattern root opts (files_at root (Base root) nd), lg')
      \<and> (e = None \<or> e = Some SkipDir \<and> is_dir nd)"
    by blast
  with Some show ?thesis
    by (auto simp add: SearchFiles_unvalidated_def Walk_def visit_entry_skip_first_eq)
qed

subsection \<open>UTF-8: decoding what was encoded\<close>

text \<open>
  On well-formed text the runes of a string are the code points it encodes: decoding the
  encoding of a list of scalar values gives the list back. So the runes that
  \<open>truncateString\<close> counts and keeps are code points, and it cuts the encoding of
  more than \<open>maxLen > 3\<close> code points to the encoding of the first \<open>maxLen - 3\<close>.
\<close>

lemma lead_mod: 
  fixes q :: nat
  shows "q < 32 \<Longrightarrow> (192 + q) mod 32 = q" "q < 16 \<Longrightarrow> (224 + q) mod 16 = q" "q < 8 \<Longrightarrow> (240 + q) mod 8 = q"
  by (simp_all add: mod_add_left_eq [symmetric] del: mod_add_left_eq)

lemma cont_mod:
  fixes m :: nat
  shows "m < 64 \<Longrightarrow> (128 + m) mod 64 = m"
  by (simp add: mod_add_left_eq [symmetric] del: mod_add_left_eq)

lemma split64: "(r::nat) div 64 * 64 + r mod 64 = r"
  by simp

lemma split4096: "(r::nat) div 4096 * 4096 + r div 64 mod 64 * 64 + r mod 64 = r"
proof -
  have d: "r div 4096 = r div 64 div 64"
    by (simp add: div_mult2_eq [symmetric])
  have a: "x * 4096 + y * 64 = (x * 64 + y) * 64" for x y :: nat
    by simp
  have "r div 64 div 64 * 4096 + r div 64 mod 64 * 64 = (r div 64 div 64 * 64 + r div 64 mod 64) * 64"
    by (rule a)
  also have "\<dots> = r div 64 * 64"
    by (simp only: div_mult_mod_eq)
  finally have "r div 4096 * 4096 + r div 64 mod 64 * 64 = r div 64 * 64"
    by (simp only: d)
  then have "r div 4096 * 4096 + r div 64 mod 64 * 64 + r mod 64 = r div 64 * 64 + r mod 64"
    by simp
  then show ?thesis
    by (simp only: div_mult_mod_eq)
qed

lemma split262144:
  "(r::nat) div 262144 * 262144 + r div 4096 mod 64 * 4096 + r div 64 mod 64 * 64 + r mod 64 = r"
proof -
  have d: "r div 262144 = r div 4096 div 64"
    by (simp add: div_mult2_eq [symmetric])
  have a: "x * 262144 + y * 4096 = (x * 64 + y) * 4096" for x y :: nat
    by simp
  have "r div 4096 div 64 * 262144 + r div 4096 mod 64 * 4096
      = (r div 4096 div 64 * 64 + r div 4096 mod 64) * 4096"
    by (rule a)
  also have "\<dots> = r div 4096 * 4096"
    by (simp only: div_mult_mod_eq)
  finally have "r div 262144 * 262144 + r div 4096 mod 64 * 4096 = r div 4096 * 4096"
    by (simp only: d)
  then have "r div 262144 * 262144 + r div 4096 mod 64 * 4096 + r div 64 mod 64 * 64 + r mod 64
      = r div 4096 * 4096 + r div 64 mod 64 * 64 + r mod 64"
    by simp
  then show ?thesis
    by (simp only: split4096)
qed

lemma div_bounds:
  fixes r :: nat
  shows "r \<le> 0x7FF \<Longrightarrow> r div 64 < 32" "0x7F < r \<Longrightarrow> 2 \<le> r div 64"
    "r \<le> 0xFFFF \<Longrightarrow> r div 4096 < 16"
    "r \<le> 0x10FFFF \<Longrightarrow> r div 262144 < 8" "r \<le> 0x10FFFF \<Longrightarrow> r div 262144 \<le> 4"
    "0x7FF < r \<Longrightarrow> r div 4096 = 0 \<Longrightarrow> 32 \<le> r div 64 mod 64"
    "0xFFFF < r \<Longrightarrow> r div 262144 = 0 \<Longrightarrow> 16 \<le> r div 4096 mod 64"
    "0xFFFF < r \<Longrightarrow> 1 \<le> r div 4096"
  by (simp_all add: div_less_iff_less_mult less_eq_div_iff_mult_less_eq) 

lemma below_surrogates:
  fixes r :: nat
  assumes "r div 4096 = 13" and "r < 0xD800"
  shows "r div 64 mod 64 < 32"
proof -
  have "r div 64 div 64 = 13"
    using assms(1) by (simp add: div_mult2_eq [symmetric])
  moreover have "r div 64 < 864"
    using assms(2) by (simp add: div_less_iff_less_mult)
  moreover have "r div 64 = r div 64 div 64 * 64 + r div 64 mod 64"
    by simp
  ultimately show ?thesis by linarith
qed

lemma top_plane:
  fixes r :: nat
  assumes "r div 262144 = 4" and "r \<le> 0x10FFFF"
  shows "r div 4096 mod 64 < 16"
proof -
  have "r div 4096 div 64 = 4"
    using assms(1) by (simp add: div_mult2_eq [symmetric])
  moreover have "r div 4096 < 272"
    using assms(2) by (simp add: div_less_iff_less_mult)
  moreover have "r div 4096 = r div 4096 div 64 * 64 + r div 4096 mod 64"
    by simp
  ultimately show ?thesis by linarith
qed

lemma byte_chr: "n < 256 \<Longrightarrow> byte (chr n) = n"
  by (simp add: byte_def chr_def)

lemma DecodeRune_2:
  assumes "byte c0 = s0" "0xC2 \<le> s0" "s0 < 0xE0" "byte c1 = s1" "0x80 \<le> s1" "s1 \<le> 0xBF"
  shows "DecodeRune (c0 # c1 # t) = ((s0 mod 32) * 64 + s1 mod 64, 2)"
proof -
  have a: "\<not> s0 < 0x80" "\<not> (s0 < 0xC2 \<or> 0xF5 \<le> s0)" "s0 < 0xE0" "s0 \<noteq> 0xE0" "s0 \<noteq> 0xF0"
    "s0 \<noteq> 0xED" "s0 \<noteq> 0xF4" "\<not> (s1 < 0x80 \<or> 0xBF < s1)"
    using assms by simp_all
  show ?thesis
    unfolding DecodeRune_def Let_def
    by (simp only: list.size nth_Cons_0 nth_Cons_Suc assms(1,4) a if_True if_False One_nat_def
        nth_Cons_numeral) simp
qed

lemma DecodeRune_3:
  assumes "byte c0 = s0" "0xE0 \<le> s0" "s0 < 0xF0" "byte c1 = s1"
    "(if s0 = 0xE0 then 0xA0 else 0x80) \<le> s1" "s1 \<le> (if s0 = 0xED then 0x9F else 0xBF)"
    "byte c2 = s2" "0x80 \<le> s2" "s2 \<le> 0xBF"
  shows "DecodeRune (c0 # c1 # c2 # t) = ((s0 mod 16) * 4096 + (s1 mod 64) * 64 + s2 mod 64, 3)"
proof -
  have a: "\<not> s0 < 0x80" "\<not> (s0 < 0xC2 \<or> 0xF5 \<le> s0)" "\<not> s0 < 0xE0" "s0 < 0xF0" "s0 \<noteq> 0xF0"
    "s0 \<noteq> 0xF4" "\<not> (s2 < 0x80 \<or> 0xBF < s2)"
    using assms by simp_all
  have b: "\<not> (s1 < (if s0 = 0xE0 then 0xA0 else 0x80) \<or> (if s0 = 0xED then 0x9F else 0xBF) < s1)"
    using assms(5,6) by simp
  show ?thesis
    unfolding DecodeRune_def Let_def
    by (simp only: list.size nth_Cons_0 nth_Cons_Suc assms(1,4,7) a b if_True if_False One_nat_def
        nth_Cons_numeral) (simp add: assms(7) a)
qed

lemma DecodeRune_4:
  assumes "byte c0 = s0" "0xF0 \<le> s0" "s0 < 0xF5" "byte c1 = s1"
    "(if s0 = 0xF0 then 0x90 else 0x80) \<le> s1" "s1 \<le> (if s0 = 0xF4 then 0x8F else 0xBF)"
    "byte c2 = s2" "0x80 \<le> s2" "s2 \<le> 0xBF" "byte c3 = s3" "0x80 \<le> s3" "s3 \<le> 0xBF"
  shows "DecodeRune (c0 # c1 # c2 # c3 # t)
           = ((s0 mod 8) * 262144 + (s1 mod 64) * 4096 + (s2 mod 64) * 64 + s3 mod 64, 4)"
proof -
  have a: "\<not> s0 < 0x80" "\<not> (s0 < 0xC2 \<or> 0xF5 \<le> s0)" "\<not> s0 < 0xE0" "\<not> s0 < 0xF0" "s0 \<noteq> 0xE0"
    "s0 \<noteq> 0xED" "\<not> (s2 < 0x80 \<or> 0xBF < s2)" "\<not> (s3 < 0x80 \<or> 0xBF < s3)"
    using assms by simp_all
  have b: "\<not> (s1 < (if s0 = 0xF0 then 0x90 else 0x80) \<or> (if s0 = 0xF4 then 0x8F else 0xBF) < s1)"
    using assms(5,6) by simp
  show ?thesis
    unfolding DecodeRune_def Let_def
    by (simp only: list.size nth_Cons_0 nth_Cons_Suc assms(1,4,7,10) a b if_True if_False
        One_nat_def nth_Cons_numeral) (simp add: assms(7,10) a)
qed


lemma DecodeRune_EncodeRune:
  assumes "valid_rune r"
  shows "DecodeRune (EncodeRune r @ t) = (r, length (EncodeRune r))"
proof -
  consider "r \<le> 0x7F" | "0x7F < r" "r \<le> 0x7FF" | "0x7FF < r" "r \<le> 0xFFFF" | "0xFFFF < r"
    by linarith
  then show ?thesis
  proof cases
    case 1
    then show ?thesis
      by (simp add: DecodeRune_def EncodeRune_def byte_chr)
  next
    case 2
    then have e: "EncodeRune r = [chr (0xC0 + r div 64), chr (0x80 + r mod 64)]"
      by (simp add: EncodeRune_def)
    from 2 have q: "r div 64 < 32" "2 \<le> r div 64"
      by (simp_all add: div_bounds)
    have m: "r mod 64 < 64" by simp
    have "DecodeRune (chr (0xC0 + r div 64) # chr (0x80 + r mod 64) # t)
        = ((0xC0 + r div 64) mod 32 * 64 + (0x80 + r mod 64) mod 64, 2)"
      using q m by (intro DecodeRune_2 byte_chr) simp_all
    also have "(0xC0 + r div 64) mod 32 * 64 + (0x80 + r mod 64) mod 64 = r"
      using lead_mod(1) [OF q(1)] cont_mod [OF m] by simp
    finally show ?thesis by (simp add: e)
  next
    case 3
    with assms have ns: "r < 0xD800 \<or> 0xDFFF < r"
      by (auto simp: valid_rune_def)
    from 3 ns have e: "EncodeRune r = [chr (0xE0 + r div 4096), chr (0x80 + r div 64 mod 64),
        chr (0x80 + r mod 64)]"
      by (auto simp add: EncodeRune_def)
    from 3 have q: "r div 4096 < 16"
      by (simp add: div_bounds)
    have m: "r div 64 mod 64 < 64" "r mod 64 < 64" by simp_all
    have lo: "(if 0xE0 + r div 4096 = 0xE0 then 0xA0 else 0x80) \<le> 0x80 + r div 64 mod 64"
      using div_bounds(6) [OF 3(1)] by simp
    have hi: "0x80 + r div 64 mod 64 \<le> (if 0xE0 + r div 4096 = 0xED then 0x9F else 0xBF)"
    proof (cases "r div 4096 = 13")
      case True
      then have "r div 4096 < 14" by simp
      then have "r < 57344" by (simp add: div_less_iff_less_mult)
      with ns have "r < 0xD800" by linarith
      with True have "r div 64 mod 64 < 32" by (rule below_surrogates)
      with True show ?thesis by simp
    next
      case False
      with m(1) show ?thesis by simp
    qed
    have "DecodeRune (chr (0xE0 + r div 4096) # chr (0x80 + r div 64 mod 64) # chr (0x80 + r mod 64) # t)
        = ((0xE0 + r div 4096) mod 16 * 4096 + (0x80 + r div 64 mod 64) mod 64 * 64
            + (0x80 + r mod 64) mod 64, 3)"
      using q m lo hi by (intro DecodeRune_3 byte_chr) simp_all
    also have "(0xE0 + r div 4096) mod 16 * 4096 + (0x80 + r div 64 mod 64) mod 64 * 64
            + (0x80 + r mod 64) mod 64 = r"
      using lead_mod(2) [OF q] cont_mod [OF m(1)] cont_mod [OF m(2)] split4096 [of r] by simp
    finally show ?thesis by (simp add: e)
  next
    case 4
    with assms have le: "r \<le> 0x10FFFF"
      by (simp add: valid_rune_def)
    from 4 le have e: "EncodeRune r = [chr (0xF0 + r div 262144), chr (0x80 + r div 4096 mod 64),
        chr (0x80 + r div 64 mod 64), chr (0x80 + r mod 64)]"
      by (simp add: EncodeRune_def)
    from le have q: "r div 262144 < 8" "r div 262144 \<le> 4"
      by (simp_all add: div_bounds)
    have m: "r div 4096 mod 64 < 64" "r div 64 mod 64 < 64" "r mod 64 < 64" by simp_all
    have lo: "(if 0xF0 + r div 262144 = 0xF0 then 0x90 else 0x80) \<le> 0x80 + r div 4096 mod 64"
      using div_bounds(7) [OF 4] by simp
    have hi: "0x80 + r div 4096 mod 64 \<le> (if 0xF0 + r div 262144 = 0xF4 then 0x8F else 0xBF)"
    proof (cases "r div 262144 = 4")
      case True
      from top_plane [OF True le] True show ?thesis by simp
    next
      case False
      with m(1) show ?thesis by simp
    qed
    have "DecodeRune (chr (0xF0 + r div 262144) # chr (0x80 + r div 4096 mod 64)
              # chr (0x80 + r div 64 mod 64) # chr (0x80 + r mod 64) # t)
        = ((0xF0 + r div 262144) mod 8 * 262144 + (0x80 + r div 4096 mod 64) mod 64 * 4096
            + (0x80 + r div 64 mod 64) mod 64 * 64 + (0x80 + r mod 64) mod 64, 4)"
      using q m lo hi by (intro DecodeRune_4 byte_chr) simp_all
    also have "(0xF0 + r div 262144) mod 8 * 262144 + (0x80 + r div 4096 mod 64) mod 64 * 4096
            + (0x80 + r div 64 mod 64) mod 64 * 64 + (0x80 + r mod 64) mod 64 = r"
      using lead_mod(3) [OF q(1)] cont_mod [OF m(1)] cont_mod [OF m(2)] cont_mod [OF m(3)]
        split262144 [of r] by simp
    finally show ?thesis by (simp add: e)
  qed
qed

lemma EncodeRune_not_Nil: "EncodeRune r \<noteq> []"
  by (simp add: EncodeRune_def)

lemma runes_EncodeRune:
  assumes "valid_rune r"
  shows "runes (EncodeRune r @ t) = r # runes t"
proof -
  obtain c cs where e: "EncodeRune r = c # cs"
    using EncodeRune_not_Nil [of r] by (cases "EncodeRune r") auto
  from DecodeRune_EncodeRune [OF assms, of t] e
  have "DecodeRune (c # cs @ t) = (r, Suc (length cs))"
    by simp
  then show ?thesis
    by (simp add: e)
qed

lemma runes_string_of_runes:
  "list_all valid_rune rs \<Longrightarrow> runes (string_of_runes rs) = rs"
proof (induction rs)
  case Nil
  then show ?case by (simp add: string_of_runes_def)
next
  case (Cons r rs)
  then have "runes (EncodeRune r @ string_of_runes rs) = r # rs"
    by (simp add: runes_EncodeRune)
  then show ?case by (simp add: string_of_runes_def)
qed

lemma truncateString_well_formed:
  assumes "list_all valid_rune rs" and "3 < maxLen" and "maxLen < int (length rs)"
  shows "truncateString (string_of_runes rs) maxLen
           = string_of_runes (take (nat (maxLen - 3)) rs) @ ''...''"
  using assms by (simp add: truncateString_def RuneCountInString_def runes_string_of_runes)

end
